theory Spec2Isabelle
  imports Main "HOL-Library.Word" "HOL-Library.List_Lexorder" "HOL-Library.Sublist"
begin

unbundle bit_operations_syntax

section \<open>Bytes, little-endian integers and readers\<close>

text \<open>
  A Go \<open>[]byte\<close> and a Go \<open>string\<close> are both finite sequences of bytes; Go compares
  strings bytewise, which is the lexicographic order of \<open>HOL-Library.List_Lexorder\<close>
  over the unsigned order of \<open>8 word\<close>. A \<open>nil\<close> slice and an empty slice are both
  the empty list (they are indistinguishable by \<open>len\<close> and \<open>bytes.Equal\<close>).
\<close>

type_synonym byte = "8 word"
type_synonym bytes = "byte list"
type_synonym key = "byte list"

text \<open>\<open>binary.Write(w, binary.LittleEndian, x)\<close> for \<open>uint32\<close> and \<open>uint64\<close>.\<close>

definition le32 :: "32 word \<Rightarrow> bytes" where
  "le32 w = [ucast w, ucast (drop_bit 8 w), ucast (drop_bit 16 w), ucast (drop_bit 24 w)]"

definition le64 :: "64 word \<Rightarrow> bytes" where
  "le64 w = [ucast w, ucast (drop_bit 8 w), ucast (drop_bit 16 w), ucast (drop_bit 24 w),
     ucast (drop_bit 32 w), ucast (drop_bit 40 w), ucast (drop_bit 48 w), ucast (drop_bit 56 w)]"

text \<open>\<open>binary.LittleEndian.Uint32\<close> and \<open>Uint64\<close> on a slice of 4 resp. 8 bytes.\<close>

definition rd32 :: "bytes \<Rightarrow> 32 word" where
  "rd32 bs = (ucast (bs ! 0) OR push_bit 8 (ucast (bs ! 1)) OR push_bit 16 (ucast (bs ! 2))
     OR push_bit 24 (ucast (bs ! 3)))"

definition rd64 :: "bytes \<Rightarrow> 64 word" where
  "rd64 bs = (ucast (bs ! 0) OR push_bit 8 (ucast (bs ! 1)) OR push_bit 16 (ucast (bs ! 2))
     OR push_bit 24 (ucast (bs ! 3)) OR push_bit 32 (ucast (bs ! 4)) OR push_bit 40 (ucast (bs ! 5))
     OR push_bit 48 (ucast (bs ! 6)) OR push_bit 56 (ucast (bs ! 7)))"

text \<open>
  A reader is the list of bytes still unread. \<open>io.ReadFull(r, buf)\<close> with \<open>len(buf) = n\<close>:
  nothing is read for \<open>n = 0\<close>; \<open>io.EOF\<close> when no byte is left; \<open>io.ErrUnexpectedEOF\<close>
  when fewer than \<open>n\<close> are left; otherwise the \<open>n\<close> bytes and the advanced reader.
  \<open>binary.Read\<close> of a fixed-size integer is \<open>io.ReadFull\<close> of its size.
\<close>

datatype io_error = EOF | ErrUnexpectedEOF

definition ReadFull :: "nat \<Rightarrow> bytes \<Rightarrow> io_error + (bytes \<times> bytes)" where
  "ReadFull n r =
     (if n = 0 then Inr ([], r)
      else if r = [] then Inl EOF
      else if length r < n then Inl ErrUnexpectedEOF
      else Inr (take n r, drop n r))"

definition ReadU32 :: "bytes \<Rightarrow> io_error + (32 word \<times> bytes)" where
  "ReadU32 r = (case ReadFull 4 r of Inl e \<Rightarrow> Inl e | Inr (b, r') \<Rightarrow> Inr (rd32 b, r'))"

definition ReadU64 :: "bytes \<Rightarrow> io_error + (64 word \<times> bytes)" where
  "ReadU64 r = (case ReadFull 8 r of Inl e \<Rightarrow> Inl e | Inr (b, r') \<Rightarrow> Inr (rd64 b, r'))"

text \<open>\<open>bufio.Reader.ReadByte\<close>.\<close>

definition ReadByte :: "bytes \<Rightarrow> io_error + (byte \<times> bytes)" where
  "ReadByte r = (case r of [] \<Rightarrow> Inl EOF | b # r' \<Rightarrow> Inr (b, r'))"

section \<open>Write-ahead log\<close>

text \<open>
  The WAL handle owns the file and a \<open>bufio.Writer\<close>; \<open>wal_file\<close> is the content of the
  file on disk and \<open>wal_buf\<close> the bytes buffered and not yet written. The model follows the
  path on which the writes to the operating system succeed.
\<close>

record WAL =
  wal_file :: bytes
  wal_buf :: bytes

record Record =
  Op :: byte
  RKey :: key
  RValue :: bytes

definition opPut :: byte where "opPut = 0"
definition opDelete :: byte where "opDelete = 1"

datatype wal_error = ErrCorruptWAL

text \<open>\<open>wal.Open\<close> on a path whose file has content \<open>f\<close> (\<open>[]\<close> when it is created).\<close>

definition wal_Open :: "bytes \<Rightarrow> WAL" where
  "wal_Open f = \<lparr>wal_file = f, wal_buf = []\<rparr>"

definition buf_Write :: "bytes \<Rightarrow> WAL \<Rightarrow> WAL" where
  "buf_Write p w = w\<lparr>wal_buf := wal_buf w @ p\<rparr>"

definition buf_Flush :: "WAL \<Rightarrow> WAL" where
  "buf_Flush w = w\<lparr>wal_file := wal_file w @ wal_buf w, wal_buf := []\<rparr>"

definition AppendPut :: "key \<Rightarrow> bytes \<Rightarrow> WAL \<Rightarrow> WAL" where
  "AppendPut k v w =
     (let w1 = buf_Write [opPut] w;
          w2 = buf_Write (le32 (of_nat (length k))) w1;
          w3 = buf_Write (le32 (of_nat (length v))) w2;
          w4 = buf_Write k w3;
          w5 = (if length v > 0 then buf_Write v w4 else w4)
      in buf_Flush w5)"

definition AppendDelete :: "key \<Rightarrow> WAL \<Rightarrow> WAL" where
  "AppendDelete k w =
     (let w1 = buf_Write [opDelete] w;
          w2 = buf_Write (le32 (of_nat (length k))) w1;
          w3 = buf_Write (le32 0) w2;
          w4 = buf_Write k w3
      in buf_Flush w4)"

text \<open>
  One turn of the loop of \<open>Replay\<close>: \<open>None\<close> is the clean end of the file at a record
  boundary, \<open>Some (Inl _)\<close> a corrupt record, \<open>Some (Inr (rec, r'))\<close> a record and the
  reader after it. The op byte is checked last, as in the source.
\<close>

definition replay_step :: "bytes \<Rightarrow> (wal_error + (Record \<times> bytes)) option" where
  "replay_step r =
     (case ReadByte r of
        Inl _ \<Rightarrow> None
      | Inr (op, r1) \<Rightarrow>
     (case ReadU32 r1 of
        Inl _ \<Rightarrow> Some (Inl ErrCorruptWAL)
      | Inr (keyLen, r2) \<Rightarrow>
     (case ReadU32 r2 of
        Inl _ \<Rightarrow> Some (Inl ErrCorruptWAL)
      | Inr (valLen, r3) \<Rightarrow>
     (case ReadFull (unat keyLen) r3 of
        Inl _ \<Rightarrow> Some (Inl ErrCorruptWAL)
      | Inr (keyB, r4) \<Rightarrow>
     (case (if valLen > 0 then ReadFull (unat valLen) r4 else Inr ([], r4)) of
        Inl _ \<Rightarrow> Some (Inl ErrCorruptWAL)
      | Inr (valB, r5) \<Rightarrow>
          if op \<noteq> opPut \<and> op \<noteq> opDelete then Some (Inl ErrCorruptWAL)
          else Some (Inr (\<lparr>Op = op, RKey = keyB, RValue = valB\<rparr>, r5)))))))"

lemma ReadFull_length:
  "ReadFull n r = Inr (b, r') \<Longrightarrow> length r' \<le> length r"
  by (auto simp: ReadFull_def split: if_splits)

lemma ReadU32_length:
  "ReadU32 r = Inr (x, r') \<Longrightarrow> length r' \<le> length r"
  by (auto simp: ReadU32_def split: sum.splits dest: ReadFull_length)

lemma ReadU64_length:
  "ReadU64 r = Inr (x, r') \<Longrightarrow> length r' \<le> length r"
  by (auto simp: ReadU64_def split: sum.splits dest: ReadFull_length)

lemma ReadByte_length:
  "ReadByte r = Inr (b, r') \<Longrightarrow> length r' < length r"
  by (auto simp: ReadByte_def split: list.splits)

lemma replay_step_length:
  "replay_step r = Some (Inr (rc, r')) \<Longrightarrow> length r' < length r"
  unfolding replay_step_def
  by (auto split: sum.splits if_splits prod.splits
      dest!: ReadByte_length ReadU32_length ReadFull_length)

function replay_loop :: "bytes \<Rightarrow> Record list \<Rightarrow> wal_error + Record list" where
  "replay_loop r out =
     (case replay_step r of
        None \<Rightarrow> Inr out
      | Some (Inl e) \<Rightarrow> Inl e
      | Some (Inr (rc, r')) \<Rightarrow> replay_loop r' (out @ [rc]))"
  by pat_completeness auto
termination
  by (relation "measure (\<lambda>(r, out). length r)") (auto dest: replay_step_length)

declare replay_loop.simps [simp del]

text \<open>\<open>Replay(path)\<close>: \<open>None\<close> is a path with no file, which replays as the empty log.\<close>

definition Replay :: "bytes option \<Rightarrow> wal_error + Record list" where
  "Replay f = (case f of None \<Rightarrow> Inr [] | Some content \<Rightarrow> replay_loop content [])"

text \<open>A sequence of append operations, applied in order to a WAL handle.\<close>

datatype wal_op = DoPut key bytes | DoDelete key

fun apply_op :: "WAL \<Rightarrow> wal_op \<Rightarrow> WAL" where
  "apply_op w (DoPut k v) = AppendPut k v w"
| "apply_op w (DoDelete k) = AppendDelete k w"

definition apply_ops :: "wal_op list \<Rightarrow> WAL \<Rightarrow> WAL" where
  "apply_ops ops w = foldl apply_op w ops"

fun record_of :: "wal_op \<Rightarrow> Record" where
  "record_of (DoPut k v) = \<lparr>Op = 0, RKey = k, RValue = v\<rparr>"
| "record_of (DoDelete k) = \<lparr>Op = 1, RKey = k, RValue = []\<rparr>"

text \<open>The lengths of an operation fit the 32-bit length fields of the record.\<close>

fun fits32 :: "wal_op \<Rightarrow> bool" where
  "fits32 (DoPut k v) = (length k < 2 ^ 32 \<and> length v < 2 ^ 32)"
| "fits32 (DoDelete k) = (length k < 2 ^ 32)"

definition big_key :: key where
  "big_key = replicate (2 ^ 32) 0"

text \<open>The bytes that one append operation adds to the file.\<close>

definition wal_encode :: "wal_op \<Rightarrow> bytes" where
  "wal_encode x = (case x of
      DoPut k v \<Rightarrow> [opPut] @ le32 (of_nat (length k)) @ le32 (of_nat (length v)) @ k @ v
    | DoDelete k \<Rightarrow> [opDelete] @ le32 (of_nat (length k)) @ le32 0 @ k)"

section \<open>SSTable\<close>

record Entry =
  Key :: key
  Value :: bytes
  Tombstone :: bool

datatype GetResult = NotFound | Found | Deleted

text \<open>
  The errors a read can return. \<open>Panic\<close> is not an error value of the source: it stands
  for the run-time panic of an index out of range, which no caller intercepts.
\<close>

datatype sst_error = ErrCorruptSST | ErrIO io_error | ErrNotExist | Panic

definition magic :: "32 word" where "magic = 0x46534442"
definition indexStride :: nat where "indexStride = 32"
definition maxIndexKeySize :: "32 word" where "maxIndexKeySize = 2 ^ 20"
definition maxIndexCount :: "32 word" where "maxIndexCount = 2 ^ 20"
definition headerSize :: nat where "headerSize = 8"
definition footerSize :: nat where "footerSize = 16"

subsection \<open>Bloom filter\<close>

text \<open>The fields \<open>m\<close>, \<open>k\<close> and \<open>b\<close> of the source's \<open>bloom\<close>.\<close>

record bloom =
  bf_m :: "32 word"
  bf_k :: "8 word"
  bf_b :: bytes

definition newBloom :: "32 word \<Rightarrow> 8 word \<Rightarrow> bloom" where
  "newBloom m k =
     (let m' = (if m < 8 then 8 else m); nbytes = (m' + 7) div 8
      in \<lparr>bf_m = m', bf_k = k, bf_b = replicate (unat nbytes) 0\<rparr>)"

text \<open>\<open>hash/fnv\<close>'s 64-bit FNV-1a: xor the byte in, multiply by the FNV prime.\<close>

definition fnv64a :: "key \<Rightarrow> 64 word" where
  "fnv64a s = foldl (\<lambda>h c. (h XOR ucast c) * 0x100000001b3) 0xcbf29ce484222325 s"

definition mix64 :: "64 word \<Rightarrow> 64 word" where
  "mix64 x0 =
     (let x1 = x0 XOR drop_bit 33 x0;
          x2 = x1 * 0xff51afd7ed558ccd;
          x3 = x2 XOR drop_bit 33 x2;
          x4 = x3 * 0xc4ceb9fe1a85ec53
      in x4 XOR drop_bit 33 x4)"

text \<open>
  The position of tap \<open>i\<close>: \<open>uint32((h1 + uint64(i) * h2) % uint64(bf.m))\<close>. Every caller
  has \<open>bf.m \<noteq> 0\<close>: \<open>newBloom\<close> raises it to 8 and \<open>Get\<close> rejects 0 before hashing.
\<close>

definition bloom_pos :: "bloom \<Rightarrow> key \<Rightarrow> 8 word \<Rightarrow> 32 word" where
  "bloom_pos bf s i =
     (let h1 = fnv64a s;
          h2 = mix64 (h1 XOR 0x9e3779b97f4a7c15);
          h = h1 + ucast i * h2
      in ucast (h mod ucast (bf_m bf)))"

text \<open>
  \<open>set\<close> writes \<open>bf.b[i / 8]\<close>. It is only called from \<open>add\<close> on a filter made by
  \<open>newBloom\<close>, whose bitset holds \<open>(m + 7) / 8\<close> bytes, so the index is in range
  (lemma \<open>bloom_pos_in_range\<close> below) and the update is total here.
\<close>

definition bloom_set :: "32 word \<Rightarrow> bloom \<Rightarrow> bloom" where
  "bloom_set i bf =
     (let byteIdx = unat (i div 8); bitn = unat (ucast (i mod 8) :: 8 word)
      in bf\<lparr>bf_b := (bf_b bf)[byteIdx := (bf_b bf ! byteIdx) OR push_bit bitn 1]\<rparr>)"

text \<open>
  \<open>get\<close> reads \<open>bf.b[i / 8]\<close> of a filter that may come from a file, where nothing
  relates \<open>m\<close> to the length of the bitset: \<open>None\<close> is the index-out-of-range panic.
\<close>

definition bloom_get :: "bloom \<Rightarrow> 32 word \<Rightarrow> bool option" where
  "bloom_get bf i =
     (let byteIdx = unat (i div 8); bitn = unat (ucast (i mod 8) :: 8 word)
      in if byteIdx < length (bf_b bf)
         then Some ((bf_b bf ! byteIdx) AND push_bit bitn 1 \<noteq> 0)
         else None)"

definition bloom_add :: "key \<Rightarrow> bloom \<Rightarrow> bloom" where
  "bloom_add s bf =
     foldl (\<lambda>bf' i. bloom_set (bloom_pos bf' s (of_nat i)) bf') bf [0..<unat (bf_k bf)]"

text \<open>The loop of \<open>mayContain\<close> over the taps still to test; it returns at the first clear bit.\<close>

fun mayContain_taps :: "bloom \<Rightarrow> key \<Rightarrow> nat list \<Rightarrow> bool option" where
  "mayContain_taps bf s [] = Some True"
| "mayContain_taps bf s (i # rest) =
     (case bloom_get bf (bloom_pos bf s (of_nat i)) of
        None \<Rightarrow> None
      | Some False \<Rightarrow> Some False
      | Some True \<Rightarrow> mayContain_taps bf s rest)"

definition mayContain :: "bloom \<Rightarrow> key \<Rightarrow> bool option" where
  "mayContain bf s = mayContain_taps bf s [0..<unat (bf_k bf)]"

definition marshal :: "bloom \<Rightarrow> bytes" where
  "marshal bf =
     le32 (bf_m bf) @ [bf_k bf] @ [0, 0, 0] @ le32 (of_nat (length (bf_b bf))) @ bf_b bf"

text \<open>\<open>12 + n\<close> is computed in \<open>uint32\<close> before the conversion to \<open>int\<close>.\<close>

definition unmarshalBloom :: "bytes \<Rightarrow> bloom option" where
  "unmarshalBloom p =
     (if length p < 12 then None
      else let m = rd32 (take 4 p); k = p ! 4
      in if m = 0 \<or> k = 0 then None
      else let n = rd32 (take 4 (drop 8 p))
      in if unat (12 + n) \<noteq> length p \<or> n = 0 then None
      else Some \<lparr>bf_m = m, bf_k = k,
                 bf_b = take (unat n) (drop 12 p @ replicate (unat n) 0)\<rparr>)"

subsection \<open>Writing a table\<close>

text \<open>The buffered writer that counts: the bytes written so far and their number.\<close>

record countWriter =
  cw_w :: bytes
  cw_n :: "64 word"

definition newCountWriter :: countWriter where
  "newCountWriter = \<lparr>cw_w = [], cw_n = 0\<rparr>"

definition cw_Write :: "bytes \<Rightarrow> countWriter \<Rightarrow> countWriter" where
  "cw_Write p cw = cw\<lparr>cw_w := cw_w cw @ p, cw_n := cw_n cw + of_nat (length p)\<rparr>"

definition cw_WriteByte :: "byte \<Rightarrow> countWriter \<Rightarrow> countWriter" where
  "cw_WriteByte b cw = cw\<lparr>cw_w := cw_w cw @ [b], cw_n := cw_n cw + 1\<rparr>"

text \<open>The fields \<open>key\<close> and \<open>offset\<close> of the source's \<open>indexEntry\<close>.\<close>

record indexEntry =
  ikey :: key
  ioffset :: "64 word"

text \<open>The body of the loop of \<open>WriteTable\<close> for entry number \<open>i\<close>.\<close>

definition write_record ::
  "nat \<Rightarrow> Entry \<Rightarrow> countWriter \<times> indexEntry list \<times> bloom
     \<Rightarrow> countWriter \<times> indexEntry list \<times> bloom" where
  "write_record i e st =
     (case st of (w, idx, bf) \<Rightarrow>
      let recOff = cw_n w;
          idx' = (if i mod indexStride = 0 then idx @ [\<lparr>ikey = Key e, ioffset = recOff\<rparr>]
                  else idx);
          keyB = Key e;
          valB = Value e;
          w1 = cw_Write (le32 (of_nat (length keyB))) w;
          w2 = cw_Write (le32 (of_nat (length valB))) w1;
          tomb = (if Tombstone e then 1 else 0);
          w3 = cw_WriteByte tomb w2;
          w4 = cw_Write keyB w3;
          w5 = (if length valB > 0 then cw_Write valB w4 else w4)
      in (w5, idx', bloom_add (Key e) bf))"

fun write_records ::
  "nat \<Rightarrow> Entry list \<Rightarrow> countWriter \<times> indexEntry list \<times> bloom
     \<Rightarrow> countWriter \<times> indexEntry list \<times> bloom" where
  "write_records i [] st = st"
| "write_records i (e # es) st = write_records (Suc i) es (write_record i e st)"

definition write_index_entry :: "indexEntry \<Rightarrow> countWriter \<Rightarrow> countWriter" where
  "write_index_entry it w =
     (let kb = ikey it;
          w1 = cw_Write (le32 (of_nat (length kb))) w;
          w2 = cw_Write kb w1
      in cw_Write (le64 (ioffset it)) w2)"

text \<open>
  \<open>WriteTable\<close> on the path where every write succeeds: the content of the file it
  leaves behind.
\<close>

definition WriteTable :: "Entry list \<Rightarrow> bytes" where
  "WriteTable entries =
     (let w0 = cw_Write (le32 magic) newCountWriter;
          w1 = cw_Write (le32 (of_nat (length entries))) w0;
          (w2, idx, bf) = write_records 0 entries (w1, [], newBloom (push_bit 20 1) 7);
          indexStartOffset = cw_n w2;
          w3 = cw_Write (le32 (of_nat (length idx))) w2;
          w4 = foldl (\<lambda>w it. write_index_entry it w) w3 idx;
          bloomStartOffset = cw_n w4;
          w5 = cw_Write (marshal bf) w4;
          w6 = cw_Write (le64 indexStartOffset) w5;
          w7 = cw_Write (le64 bloomStartOffset) w6
      in cw_w w7)"

subsection \<open>Reading a table\<close>

definition loadFooter :: "bytes \<Rightarrow> sst_error + (64 word \<times> 64 word)" where
  "loadFooter f =
     (let fileSize = length f in
      if fileSize < headerSize + footerSize then Inl ErrCorruptSST
      else
        let footerStart = (of_nat fileSize :: 64 word) - of_nat footerSize;
            r = drop (fileSize - footerSize) f
        in case ReadU64 r of
             Inl _ \<Rightarrow> Inl ErrCorruptSST
           | Inr (indexStartOffset, r1) \<Rightarrow>
        (case ReadU64 r1 of
             Inl _ \<Rightarrow> Inl ErrCorruptSST
           | Inr (bloomStartOffset, _) \<Rightarrow>
               if indexStartOffset < of_nat headerSize \<or> indexStartOffset \<ge> footerStart
               then Inl ErrCorruptSST
               else if bloomStartOffset \<le> indexStartOffset \<or> bloomStartOffset \<ge> footerStart
               then Inl ErrCorruptSST
               else Inr (indexStartOffset, bloomStartOffset)))"

text \<open>
  The loop of \<open>loadIndex\<close> that reads \<open>n\<close> more index entries from the reader \<open>r\<close>.
\<close>

fun load_entries :: "nat \<Rightarrow> 64 word \<Rightarrow> bytes \<Rightarrow> sst_error + indexEntry list" where
  "load_entries 0 indexStartOffset r = Inr []"
| "load_entries (Suc n) indexStartOffset r =
     (case ReadU32 r of
        Inl _ \<Rightarrow> Inl ErrCorruptSST
      | Inr (keyLen, r1) \<Rightarrow>
          if keyLen = 0 \<or> keyLen > maxIndexKeySize then Inl ErrCorruptSST
          else
     (case ReadFull (unat keyLen) r1 of
        Inl _ \<Rightarrow> Inl ErrCorruptSST
      | Inr (keyB, r2) \<Rightarrow>
     (case ReadU64 r2 of
        Inl _ \<Rightarrow> Inl ErrCorruptSST
      | Inr (recordOffset, r3) \<Rightarrow>
          if recordOffset < of_nat headerSize \<or> recordOffset \<ge> indexStartOffset
          then Inl ErrCorruptSST
          else
     (case load_entries n indexStartOffset r3 of
        Inl e \<Rightarrow> Inl e
      | Inr es \<Rightarrow> Inr (\<lparr>ikey = keyB, ioffset = recordOffset\<rparr> # es)))))"

text \<open>
  \<open>sort.SliceIsSorted(entries, less)\<close> with \<open>less(i, j) = entries[i].key < entries[j].key\<close>:
  false exactly when some element is less than its predecessor.
\<close>

fun SliceIsSorted :: "key list \<Rightarrow> bool" where
  "SliceIsSorted (x # y # rest) = (\<not> y < x \<and> SliceIsSorted (y # rest))"
| "SliceIsSorted _ = True"

definition loadIndex :: "bytes \<Rightarrow> sst_error + (indexEntry list \<times> 64 word)" where
  "loadIndex f =
     (case loadFooter f of
        Inl e \<Rightarrow> Inl e
      | Inr (indexStartOffset, _) \<Rightarrow>
     (case ReadU32 (drop (unat indexStartOffset) f) of
        Inl _ \<Rightarrow> Inl ErrCorruptSST
      | Inr (indexCount, r) \<Rightarrow>
          if indexCount = 0 \<or> indexCount > maxIndexCount then Inl ErrCorruptSST
          else
     (case load_entries (unat indexCount) indexStartOffset r of
        Inl e \<Rightarrow> Inl e
      | Inr entries \<Rightarrow>
          if \<not> SliceIsSorted (map ikey entries) then Inl ErrCorruptSST
          else Inr (entries, indexStartOffset))))"

text \<open>\<open>sort.Search(n, f)\<close>: the binary search of the standard library.\<close>

function sort_Search_loop :: "(nat \<Rightarrow> bool) \<Rightarrow> nat \<Rightarrow> nat \<Rightarrow> nat" where
  "sort_Search_loop f i j =
     (if i < j
      then let h = (i + j) div 2
           in if \<not> f h then sort_Search_loop f (h + 1) j else sort_Search_loop f i h
      else i)"
  by pat_completeness auto
termination
  by (relation "measure (\<lambda>(f, i, j). j - i)") auto

declare sort_Search_loop.simps [simp del]

definition sort_Search :: "nat \<Rightarrow> (nat \<Rightarrow> bool) \<Rightarrow> nat" where
  "sort_Search n f = sort_Search_loop f 0 n"

text \<open>
  \<open>pickScanRange\<close>; \<open>None\<close> is the panic of \<open>entries[i]\<close> on an empty index, which
  \<open>loadIndex\<close> never returns.
\<close>

definition pickScanRange ::
  "indexEntry list \<Rightarrow> 64 word \<Rightarrow> key \<Rightarrow> (64 word \<times> 64 word) option" where
  "pickScanRange entries indexOffset target =
     (let s = sort_Search (length entries) (\<lambda>i. ikey (entries ! i) > target);
          i = (if s = 0 then 0 else s - 1)
      in if i < length entries
         then let start = ioffset (entries ! i)
              in if i + 1 < length entries
                 then let next = ioffset (entries ! (i + 1))
                      in if next > start \<and> next < indexOffset then Some (start, next)
                         else Some (start, indexOffset)
                 else Some (start, indexOffset)
         else None)"

text \<open>
  One turn of the scan loop of \<open>Get\<close> over the section reader \<open>sr\<close>: it stops with a
  result or goes on with the reader after the record.
\<close>

datatype scan = Stop "sst_error + bytes \<times> GetResult" | Continue bytes

definition scan_step :: "bytes \<Rightarrow> key \<Rightarrow> scan" where
  "scan_step sr target =
     (case ReadU32 sr of
        Inl _ \<Rightarrow> Stop (Inr ([], NotFound))
      | Inr (keyLen, r1) \<Rightarrow>
     (case ReadU32 r1 of
        Inl _ \<Rightarrow> Stop (Inl ErrCorruptSST)
      | Inr (valLen, r2) \<Rightarrow>
     (case ReadByte r2 of
        Inl _ \<Rightarrow> Stop (Inl ErrCorruptSST)
      | Inr (tomb, r3) \<Rightarrow>
     (case ReadFull (unat keyLen) r3 of
        Inl _ \<Rightarrow> Stop (Inl ErrCorruptSST)
      | Inr (keyB, r4) \<Rightarrow>
     (case (if valLen > 0 then ReadFull (unat valLen) r4 else Inr ([], r4)) of
        Inl _ \<Rightarrow> Stop (Inl ErrCorruptSST)
      | Inr (valB, r5) \<Rightarrow>
          if keyB = target
          then (if tomb = 1 then Stop (Inr ([], Deleted)) else Stop (Inr (valB, Found)))
          else if keyB > target then Stop (Inr ([], NotFound))
          else Continue r5)))))"

lemma scan_step_length:
  "scan_step sr target = Continue sr' \<Longrightarrow> length sr' < length sr"
  unfolding scan_step_def
  by (auto split: sum.splits if_splits prod.splits
      dest!: ReadByte_length ReadU32_length ReadFull_length)

function scan_loop :: "bytes \<Rightarrow> key \<Rightarrow> sst_error + bytes \<times> GetResult" where
  "scan_loop sr target =
     (case scan_step sr target of
        Stop res \<Rightarrow> res
      | Continue sr' \<Rightarrow> scan_loop sr' target)"
  by pat_completeness auto
termination
  by (relation "measure (\<lambda>(sr, target). length sr)") (auto dest: scan_step_length)

declare scan_loop.simps [simp del]

text \<open>
  \<open>sstable.Get(path, key)\<close> on the file at \<open>path\<close>: \<open>None\<close> when there is none, else its
  content. On an error the source returns \<open>(nil, NotFound, err)\<close>, here \<open>Inl err\<close>.

  \<open>Get_bloom\<close> is the function up to the deserialised Bloom filter (header, footer and
  Bloom region), returned with the two offsets of the footer. \<open>Get_section\<close> is the
  function up to its scan loop: \<open>Inl\<close> is what \<open>Get\<close> returns when it returns before
  scanning, \<open>Inr\<close> the content of the section reader over \<open>[start, end)\<close> that the loop
  then reads.
\<close>

definition Get_bloom :: "bytes \<Rightarrow> sst_error + bloom \<times> 64 word \<times> 64 word" where
  "Get_bloom f =
     (case ReadU32 f of
        Inl e \<Rightarrow> Inl (ErrIO e)
      | Inr (m, r1) \<Rightarrow>
          if m \<noteq> magic then Inl ErrCorruptSST
          else
     (case ReadU32 r1 of
        Inl _ \<Rightarrow> Inl ErrCorruptSST
      | Inr (count, _) \<Rightarrow>
     (case loadFooter f of
        Inl e \<Rightarrow> Inl e
      | Inr (indexStartOffset, bloomStartOffset) \<Rightarrow>
          let footerStart = (of_nat (length f) :: 64 word) - of_nat footerSize;
              bloomBytes = take (unat (footerStart - bloomStartOffset))
                             (drop (unat bloomStartOffset) f)
          in
     (case unmarshalBloom bloomBytes of
        None \<Rightarrow> Inl ErrCorruptSST
      | Some bf \<Rightarrow>
          if bf_m bf = 0 \<or> bf_k bf = 0 then Inl ErrCorruptSST
          else Inr (bf, indexStartOffset, bloomStartOffset)))))"

definition Get_section ::
  "bytes option \<Rightarrow> key \<Rightarrow> (sst_error + bytes \<times> GetResult) + bytes" where
  "Get_section file target =
     (case file of
        None \<Rightarrow> Inl (Inl ErrNotExist)
      | Some f \<Rightarrow>
     (case Get_bloom f of
        Inl e \<Rightarrow> Inl (Inl e)
      | Inr (bf, indexStartOffset, bloomStartOffset) \<Rightarrow>
     (case mayContain bf target of
        None \<Rightarrow> Inl (Inl Panic)
      | Some False \<Rightarrow> Inl (Inr ([], NotFound))
      | Some True \<Rightarrow>
     (case loadIndex f of
        Inl e \<Rightarrow> Inl (Inl e)
      | Inr (entries, indexStartOffset2) \<Rightarrow>
          if indexStartOffset2 \<noteq> indexStartOffset then Inl (Inl ErrCorruptSST)
          else
     (case pickScanRange entries indexStartOffset target of
        None \<Rightarrow> Inl (Inl Panic)
      | Some (start, endOff) \<Rightarrow>
          if endOff \<le> start then Inl (Inl ErrCorruptSST)
          else Inr (take (unat (endOff - start)) (drop (unat start) f)))))))"

definition sst_Get :: "bytes option \<Rightarrow> key \<Rightarrow> sst_error + bytes \<times> GetResult" where
  "sst_Get file target =
     (case Get_section file target of
        Inl res \<Rightarrow> res
      | Inr sr \<Rightarrow> scan_loop sr target)"

subsection \<open>The record format and some small files\<close>

text \<open>
  The bytes of one data record with key \<open>k\<close>, value \<open>v\<close> and tombstone byte \<open>t\<close>, and the
  record that \<open>WriteTable\<close> emits for an entry.
\<close>

definition enc_rec :: "key \<times> bytes \<times> byte \<Rightarrow> bytes" where
  "enc_rec x = (case x of (k, v, t) \<Rightarrow>
     le32 (of_nat (length k)) @ le32 (of_nat (length v)) @ [t] @ k @ v)"

definition encode_entry :: "Entry \<Rightarrow> bytes" where
  "encode_entry e = enc_rec (Key e, Value e, if Tombstone e then 1 else 0)"

text \<open>The bytes that the index loop of \<open>WriteTable\<close> emits for one index entry.\<close>

definition encode_index_entry :: "indexEntry \<Rightarrow> bytes" where
  "encode_index_entry it = le32 (of_nat (length (ikey it))) @ ikey it @ le64 (ioffset it)"

text \<open>A record that the scan of \<open>target\<close> reads completely and passes over.\<close>

definition passed_over :: "key \<Rightarrow> key \<times> bytes \<times> byte \<Rightarrow> bool" where
  "passed_over target x = (case x of (k, v, t) \<Rightarrow>
     k < target \<and> length k < 2 ^ 32 \<and> length v < 2 ^ 32)"

text \<open>
  The rest of a section that starts with a whole key-length field but ends before the
  record that field announces is complete.
\<close>

definition truncated_record :: "bytes \<Rightarrow> bool" where
  "truncated_record r =
     (4 \<le> length r \<and>
      (length r < 9 \<or>
       length r < 9 + unat (rd32 (take 4 r))
         + unat (rd32 (take 4 (drop 4 r)))))"

text \<open>
  A Bloom region with \<open>m = 8\<close>, \<open>k = 1\<close> and the one bitset byte \<open>0xFF\<close>: it answers
  \<open>mayContain = true\<close> for every key.
\<close>

definition bloom_all :: bytes where
  "bloom_all = le32 8 @ [1, 0, 0, 0] @ le32 1 @ [0xFF]"

text \<open>
  A table with the one record \<open>a = 1\<close> followed by two stray bytes in the data region;
  the index holds \<open>(a, 8)\<close> and starts at offset 21, the Bloom region at 38.
\<close>

definition file_stray_tail :: bytes where
  "file_stray_tail =
     le32 magic @ le32 1
     @ enc_rec ([0x61], [0x31], 0) @ [0xEE, 0xEE]
     @ le32 1 @ le32 1 @ [0x61] @ le64 8
     @ bloom_all
     @ le64 21 @ le64 38"

text \<open>
  A table with the one record \<open>a\<close>, tombstone byte 1 and the value byte \<open>0x31\<close>
  (\<open>valLen = 1\<close>); index at offset 19, Bloom region at 36.
\<close>

definition file_tomb_value :: bytes where
  "file_tomb_value =
     le32 magic @ le32 1
     @ enc_rec ([0x61], [0x31], 1)
     @ le32 1 @ le32 1 @ [0x61] @ le64 8
     @ bloom_all
     @ le64 19 @ le64 36"

text \<open>
  A table with the one record \<open>a = 1\<close> whose index holds the entry \<open>(a, 8)\<close> twice;
  index at offset 19, Bloom region at 49.
\<close>

definition file_dup_index :: bytes where
  "file_dup_index =
     le32 magic @ le32 1
     @ enc_rec ([0x61], [0x31], 0)
     @ le32 2 @ le32 1 @ [0x61] @ le64 8 @ le32 1 @ [0x61] @ le64 8
     @ bloom_all
     @ le64 19 @ le64 49"

text \<open>
  A table like \<open>file_dup_index\<close> with one index entry and the Bloom region \<open>m = 8\<close>,
  \<open>k = 1\<close>, bitset \<open>0x00\<close>, which answers \<open>mayContain = false\<close> for every key; index at
  offset 19, Bloom region at 36.
\<close>

definition file_bloom_none :: bytes where
  "file_bloom_none =
     le32 magic @ le32 1
     @ enc_rec ([0x61], [0x31], 0)
     @ le32 1 @ le32 1 @ [0x61] @ le64 8
     @ le32 8 @ [1, 0, 0, 0] @ le32 1 @ [0x00]
     @ le64 19 @ le64 36"

text \<open>A tombstone entry without a value, and one that carries a value.\<close>

definition tomb_plain :: Entry where
  "tomb_plain = \<lparr>Key = [0x63], Value = [], Tombstone = True\<rparr>"

definition tomb_with_value :: Entry where
  "tomb_with_value = \<lparr>Key = [0x61], Value = [0x31], Tombstone = True\<rparr>"

text \<open>The table that \<open>WriteTable\<close> writes for the one entry with the empty key and the value \<open>v\<close>.\<close>

definition table_empty_key :: bytes where
  "table_empty_key = WriteTable [\<lparr>Key = [], Value = [0x76], Tombstone = False\<rparr>]"

section \<open>Skip list\<close>

text \<open>
  The nodes of a skip list are heap objects that point to each other. \<open>nodes\<close> is the
  store of the objects the list has allocated, a reference is an index into it, and \<open>nil\<close>
  is \<open>None\<close>. The head sentinel is allocated first, at address 0. A function on the list
  returns \<open>None\<close> when the source would not return: a pointer that leads out of the store
  or a \<open>forward\<close> index out of range (a panic), or a walk that never ends.
\<close>

definition maxLevel :: nat where "maxLevel = 16"

type_synonym ref = nat

record node =
  key :: key
  entry :: Entry
  forward :: "ref option list"

text \<open>
  \<open>rnd\<close> is the sequence of numbers that the list's random source will produce;
  \<open>rnd.Intn(2)\<close> takes the first one modulo 2 and advances the sequence.
\<close>

record SkipList =
  nodes :: "node list"
  head :: ref
  level :: nat
  rnd :: "nat \<Rightarrow> nat"

definition zeroEntry :: Entry where
  "zeroEntry = \<lparr>Key = [], Value = [], Tombstone = False\<rparr>"

definition NewSkipList :: "(nat \<Rightarrow> nat) \<Rightarrow> SkipList" where
  "NewSkipList seed =
     \<lparr>nodes = [\<lparr>key = [], entry = zeroEntry, forward = replicate maxLevel None\<rparr>],
      head = 0, level = 1, rnd = seed\<rparr>"

function randomLevel_loop :: "nat \<Rightarrow> (nat \<Rightarrow> nat) \<Rightarrow> nat \<times> (nat \<Rightarrow> nat)" where
  "randomLevel_loop lvl r =
     (if lvl < maxLevel
      then (if r 0 mod 2 = 0 then randomLevel_loop (lvl + 1) (\<lambda>i. r (Suc i))
            else (lvl, \<lambda>i. r (Suc i)))
      else (lvl, r))"
  by pat_completeness auto
termination
  by (relation "measure (\<lambda>(lvl, r). maxLevel - lvl)") auto

declare randomLevel_loop.simps [simp del]

definition randomLevel :: "(nat \<Rightarrow> nat) \<Rightarrow> nat \<times> (nat \<Rightarrow> nat)" where
  "randomLevel r = randomLevel_loop 1 r"

text \<open>\<open>*x\<close> and \<open>x.forward[i]\<close>; the outer \<open>None\<close> of \<open>fwd\<close> is the panic.\<close>

definition deref :: "node list \<Rightarrow> ref \<Rightarrow> node option" where
  "deref ns x = (if x < length ns then Some (ns ! x) else None)"

definition fwd :: "node list \<Rightarrow> ref \<Rightarrow> nat \<Rightarrow> ref option option" where
  "fwd ns x i =
     (case deref ns x of
        None \<Rightarrow> None
      | Some n \<Rightarrow> if i < length (forward n) then Some (forward n ! i) else None)"

text \<open>\<open>x.forward[i] = y\<close> and \<open>x.entry = e\<close>.\<close>

definition set_fwd :: "ref \<Rightarrow> nat \<Rightarrow> ref option \<Rightarrow> node list \<Rightarrow> node list" where
  "set_fwd x i y ns = ns[x := (ns ! x)\<lparr>forward := (forward (ns ! x))[i := y]\<rparr>]"

definition set_entry :: "ref \<Rightarrow> Entry \<Rightarrow> node list \<Rightarrow> node list" where
  "set_entry x e ns = ns[x := (ns ! x)\<lparr>entry := e\<rparr>]"

text \<open>
  The inner loop of \<open>Search\<close>, \<open>Upsert\<close> and \<open>FirstGE\<close> on level \<open>i\<close>:
  \<open>for x.forward[i] != nil && x.forward[i].key < key { x = x.forward[i] }\<close>.
\<close>

partial_function (option) walk :: "node list \<Rightarrow> key \<Rightarrow> nat \<Rightarrow> ref \<Rightarrow> ref option" where
  "walk ns k i x =
     (case fwd ns x i of
        None \<Rightarrow> None
      | Some None \<Rightarrow> Some x
      | Some (Some y) \<Rightarrow>
          (case deref ns y of
             None \<Rightarrow> None
           | Some n \<Rightarrow> if key n < k then walk ns k i y else Some x))"

declare walk.simps [code]

text \<open>The outer loop, from level \<open>i - 1\<close> down to level 0, without and with \<open>update\<close>.\<close>

fun descend :: "node list \<Rightarrow> key \<Rightarrow> nat \<Rightarrow> ref \<Rightarrow> ref option" where
  "descend ns k 0 x = Some x"
| "descend ns k (Suc i) x =
     (case walk ns k i x of None \<Rightarrow> None | Some y \<Rightarrow> descend ns k i y)"

fun descend_update ::
  "node list \<Rightarrow> key \<Rightarrow> nat \<Rightarrow> ref \<Rightarrow> ref option list \<Rightarrow> (ref \<times> ref option list) option" where
  "descend_update ns k 0 x update = Some (x, update)"
| "descend_update ns k (Suc i) x update =
     (case walk ns k i x of
        None \<Rightarrow> None
      | Some y \<Rightarrow> descend_update ns k i y (update[i := Some y]))"

definition Search :: "SkipList \<Rightarrow> key \<Rightarrow> (Entry \<times> bool) option" where
  "Search s k =
     (case descend (nodes s) k (level s) (head s) of
        None \<Rightarrow> None
      | Some x \<Rightarrow>
     (case fwd (nodes s) x 0 of
        None \<Rightarrow> None
      | Some None \<Rightarrow> Some (zeroEntry, False)
      | Some (Some y) \<Rightarrow>
     (case deref (nodes s) y of
        None \<Rightarrow> None
      | Some n \<Rightarrow> if key n = k then Some (entry n, True) else Some (zeroEntry, False))))"

text \<open>
  The last loop of \<open>Upsert\<close>, over the levels still to link:
  \<open>newNode.forward[i] = update[i].forward[i]; update[i].forward[i] = newNode\<close>.
\<close>

fun link :: "nat list \<Rightarrow> ref option list \<Rightarrow> ref \<Rightarrow> node list \<Rightarrow> node list option" where
  "link [] update new ns = Some ns"
| "link (i # rest) update new ns =
     (if i < length update
      then (case update ! i of
              None \<Rightarrow> None
            | Some p \<Rightarrow>
                (case fwd ns p i of
                   None \<Rightarrow> None
                 | Some nxt \<Rightarrow>
                     if new < length ns \<and> i < length (forward (ns ! new))
                     then link rest update new (set_fwd p i (Some new) (set_fwd new i nxt ns))
                     else None))
      else None)"

text \<open>\<open>for i := s.level; i < lvl; i++ { update[i] = s.head }\<close>.\<close>

definition raise_update :: "ref \<Rightarrow> nat \<Rightarrow> nat \<Rightarrow> ref option list \<Rightarrow> ref option list" where
  "raise_update h lo hi update = foldl (\<lambda>u i. u[i := Some h]) update [lo..<hi]"

text \<open>
  The second half of \<open>Upsert\<close>, for a key that is not in the list: draw the height of the
  new node, raise the level of the list if the node is higher, allocate the node (at
  the next free address) and link it behind its predecessors.
\<close>

definition insert_node :: "key \<Rightarrow> Entry \<Rightarrow> ref option list \<Rightarrow> SkipList \<Rightarrow> SkipList option" where
  "insert_node k e update s =
     (let (lvl, r) = randomLevel (rnd s);
          update' = (if lvl > level s then raise_update (head s) (level s) lvl update
                     else update);
          level' = (if lvl > level s then lvl else level s);
          new = length (nodes s);
          newNode = \<lparr>key = k, entry = e, forward = replicate lvl None\<rparr>
      in (case link [0..<lvl] update' new (nodes s @ [newNode]) of
            None \<Rightarrow> None
          | Some ns \<Rightarrow> Some (s\<lparr>nodes := ns, level := level', rnd := r\<rparr>)))"

definition Upsert :: "key \<Rightarrow> Entry \<Rightarrow> SkipList \<Rightarrow> SkipList option" where
  "Upsert k e s =
     (case descend_update (nodes s) k (level s) (head s) (replicate maxLevel None) of
        None \<Rightarrow> None
      | Some (x, update) \<Rightarrow>
     (case fwd (nodes s) x 0 of
        None \<Rightarrow> None
      | Some None \<Rightarrow> insert_node k e update s
      | Some (Some y) \<Rightarrow>
     (case deref (nodes s) y of
        None \<Rightarrow> None
      | Some n \<Rightarrow>
          if key n = k then Some (s\<lparr>nodes := set_entry y e (nodes s)\<rparr>)
          else insert_node k e update s)))"

definition First :: "SkipList \<Rightarrow> ref option option" where
  "First s = fwd (nodes s) (head s) 0"

definition FirstGE :: "SkipList \<Rightarrow> key \<Rightarrow> ref option option" where
  "FirstGE s target =
     (case descend (nodes s) target (level s) (head s) of
        None \<Rightarrow> None
      | Some x \<Rightarrow> fwd (nodes s) x 0)"


subsection \<open>The shape of a skip list\<close>

text \<open>
  The height of the node at an address is the length of its \<open>forward\<close> array;
  \<open>next_at ns i a\<close> is \<open>a.forward[i]\<close> and \<open>key_of ns a\<close> is \<open>a.key\<close>.
\<close>

definition height :: "node list \<Rightarrow> ref \<Rightarrow> nat" where
  "height ns a = length (forward (ns ! a))"

definition next_at :: "node list \<Rightarrow> nat \<Rightarrow> ref \<Rightarrow> ref option" where
  "next_at ns i a = forward (ns ! a) ! i"

definition key_of :: "node list \<Rightarrow> ref \<Rightarrow> key" where
  "key_of ns a = key (ns ! a)"

text \<open>
  \<open>seg ns i p as q\<close>: following the level-\<open>i\<close> pointers from the pointer \<open>p\<close> leads
  through exactly the nodes \<open>as\<close>, in this order, to the pointer \<open>q\<close>. The node sequence
  of level \<open>i\<close> is the one that leads from the head's pointer to \<open>nil\<close>.
\<close>

primrec seg :: "node list \<Rightarrow> nat \<Rightarrow> ref option \<Rightarrow> ref list \<Rightarrow> ref option \<Rightarrow> bool" where
  "seg ns i p [] q \<longleftrightarrow> p = q"
| "seg ns i p (a # as) q \<longleftrightarrow>
     p = Some a \<and> a < length ns \<and> i < height ns a \<and> seg ns i (next_at ns i a) as q"

definition level_seq :: "SkipList \<Rightarrow> nat \<Rightarrow> ref list \<Rightarrow> bool" where
  "level_seq s i xs \<longleftrightarrow> seg (nodes s) i (next_at (nodes s) i (head s)) xs None"

text \<open>
  The invariant of a skip list whose level-0 sequence is \<open>l0\<close>: the head is the node at
  address 0 and has \<open>maxLevel\<close> pointers; the level is between 1 and \<open>maxLevel\<close>; the nodes
  of \<open>l0\<close> are distinct allocated nodes other than the head, each of a height between 1
  and the level; the keys along \<open>l0\<close> ascend strictly; and the sequence of every level
  \<open>i\<close> consists of the nodes of \<open>l0\<close> higher than \<open>i\<close>, in the order of \<open>l0\<close>.
\<close>

definition sl_inv :: "SkipList \<Rightarrow> ref list \<Rightarrow> bool" where
  "sl_inv s l0 \<longleftrightarrow>
     head s = 0 \<and> nodes s \<noteq> [] \<and> height (nodes s) 0 = maxLevel
     \<and> 1 \<le> level s \<and> level s \<le> maxLevel
     \<and> distinct l0 \<and> 0 \<notin> set l0
     \<and> (\<forall>a\<in>set l0. a < length (nodes s) \<and> 1 \<le> height (nodes s) a
           \<and> height (nodes s) a \<le> level s)
     \<and> (\<forall>a<length (nodes s). height (nodes s) a \<le> maxLevel)
     \<and> sorted_wrt (<) (map (key_of (nodes s)) l0)
     \<and> (\<forall>i<maxLevel. level_seq s i (filter (\<lambda>a. i < height (nodes s) a) l0))"

text \<open>
  The node after which a key \<open>k\<close> belongs on level \<open>i\<close>: the last node higher than \<open>i\<close>
  among those with a smaller key, or the head.
\<close>

definition pred_at :: "node list \<Rightarrow> ref list \<Rightarrow> key \<Rightarrow> nat \<Rightarrow> ref" where
  "pred_at ns l0 k i =
     last (0 # filter (\<lambda>a. i < height ns a) (takeWhile (\<lambda>a. key_of ns a < k) l0))"

definition sl_ok :: "SkipList \<Rightarrow> bool" where
  "sl_ok s \<longleftrightarrow> (\<exists>l0. sl_inv s l0)"


section \<open>Memtable\<close>

record MemTable =
  sl :: SkipList

definition NewMemTable :: "(nat \<Rightarrow> nat) \<Rightarrow> MemTable" where
  "NewMemTable seed = \<lparr>sl = NewSkipList seed\<rparr>"

text \<open>A copy of a byte slice has the content of the slice.\<close>

definition cloneBytes :: "bytes \<Rightarrow> bytes" where
  "cloneBytes b = b"

definition mem_Put :: "key \<Rightarrow> bytes \<Rightarrow> MemTable \<Rightarrow> MemTable option" where
  "mem_Put k v m =
     (case Upsert k \<lparr>Key = k, Value = cloneBytes v, Tombstone = False\<rparr> (sl m) of
        None \<Rightarrow> None
      | Some s \<Rightarrow> Some (m\<lparr>sl := s\<rparr>))"

definition mem_Get :: "MemTable \<Rightarrow> key \<Rightarrow> (bytes \<times> bool) option" where
  "mem_Get m k =
     (case Search (sl m) k of
        None \<Rightarrow> None
      | Some (e, ok) \<Rightarrow>
          if \<not> ok \<or> Tombstone e then Some ([], False)
          else Some (cloneBytes (Value e), True))"

definition mem_Delete :: "key \<Rightarrow> MemTable \<Rightarrow> MemTable option" where
  "mem_Delete k m =
     (case Upsert k \<lparr>Key = k, Value = [], Tombstone = True\<rparr> (sl m) of
        None \<Rightarrow> None
      | Some s \<Rightarrow> Some (m\<lparr>sl := s\<rparr>))"

text \<open>
  Modelled from the spec: \<open>MemTable.GetAll\<close>, which \<open>DB.Get\<close> calls and whose code is
  not in the source. The engine's \<open>Get\<close> "checks the memtable first" and tells a hit that
  is a tombstone from a miss, so \<open>GetAll\<close> is \<open>Get\<close> without the tombstone filter (as
  \<open>RangeAll\<close> is \<open>Range\<close> without it): the entry that \<open>Search\<close> finds and whether it found one.
\<close>

definition mem_GetAll :: "MemTable \<Rightarrow> key \<Rightarrow> (Entry \<times> bool) option" where
  "mem_GetAll m k = Search (sl m) k"

text \<open>The loop of \<open>RangeAll\<close> from the node \<open>n\<close> on, with the entries collected so far.\<close>

partial_function (option) rangeAll_loop ::
  "node list \<Rightarrow> key \<Rightarrow> ref option \<Rightarrow> Entry list \<Rightarrow> Entry list option" where
  "rangeAll_loop ns stop n out =
     (case n of
        None \<Rightarrow> Some out
      | Some x \<Rightarrow>
          (case deref ns x of
             None \<Rightarrow> None
           | Some nd \<Rightarrow>
               if stop = [] \<or> key nd < stop
               then (case fwd ns x 0 of
                       None \<Rightarrow> None
                     | Some nxt \<Rightarrow>
                         rangeAll_loop ns stop nxt
                           (out @ [\<lparr>Key = key nd, Value = cloneBytes (Value (entry nd)),
                                    Tombstone = Tombstone (entry nd)\<rparr>]))
               else Some out))"

declare rangeAll_loop.simps [code]

definition RangeAll :: "MemTable \<Rightarrow> key \<Rightarrow> key \<Rightarrow> Entry list option" where
  "RangeAll m start stop =
     (case (if start = [] then First (sl m) else FirstGE (sl m) start) of
        None \<Rightarrow> None
      | Some n \<Rightarrow> rangeAll_loop (nodes (sl m)) stop n [])"

section \<open>Engine\<close>

text \<open>
  The engine sees the SSTable directory as a map from paths to file contents. Its WAL
  handle \<open>wal\<close> stands for the handle together with the file \<open>forge.wal\<close> it is open on.
  A result \<open>None\<close> of an engine function means that the call does not return (a panic
  below it).
\<close>

type_synonym path = string
type_synonym files = "path \<Rightarrow> bytes option"

datatype os_error = OsError nat

record DB =
  mem :: MemTable
  wal :: WAL
  dir :: path
  walPath :: path
  sstDir :: path
  sstables :: "path list"
  nextID :: "64 word"

text \<open>\<open>filepath.Join\<close> of a clean directory path and a file name.\<close>

definition Join :: "path \<Rightarrow> path \<Rightarrow> path" where
  "Join a b = a @ ''/'' @ b"

text \<open>The walk of \<open>DB.Get\<close> over the SSTable stack, newest first.\<close>

fun get_sstables :: "files \<Rightarrow> path list \<Rightarrow> key \<Rightarrow> (bytes \<times> bool) option" where
  "get_sstables fs [] k = Some ([], False)"
| "get_sstables fs (p # ps) k =
     (case sst_Get (fs p) k of
        Inl Panic \<Rightarrow> None
      | Inl _ \<Rightarrow> Some ([], False)
      | Inr (v, Found) \<Rightarrow> Some (v, True)
      | Inr (v, Deleted) \<Rightarrow> Some ([], False)
      | Inr (v, NotFound) \<Rightarrow> get_sstables fs ps k)"

definition DB_Get :: "files \<Rightarrow> DB \<Rightarrow> key \<Rightarrow> (bytes \<times> bool) option" where
  "DB_Get fs d k =
     (case mem_GetAll (mem d) k of
        None \<Rightarrow> None
      | Some (e, ok) \<Rightarrow>
          if ok then (if Tombstone e then Some ([], False) else Some (Value e, True))
          else get_sstables fs (sstables d) k)"

text \<open>\<open>fmt.Sprintf("%06d.sst", id)\<close>.\<close>

function decimal :: "nat \<Rightarrow> string" where
  "decimal n =
     (if n < 10 then [''0123456789'' ! n]
      else decimal (n div 10) @ [''0123456789'' ! (n mod 10)])"
  by pat_completeness auto
termination
  by (relation "measure (\<lambda>n. n)") auto

declare decimal.simps [simp del]

definition sst_name :: "64 word \<Rightarrow> string" where
  "sst_name n =
     (let s = decimal (unat n) in replicate (6 - length s) (CHR ''0'') @ s @ ''.sst'')"

text \<open>
  What the operating system does to one call of \<open>Flush\<close>: for each of its fallible steps,
  \<open>None\<close> when the step succeeds or the error it fails with. A failing \<open>WriteTable\<close>
  leaves no temporary file or one with some content; a failing \<open>os.WriteFile\<close> on the
  WAL has or has not truncated the file before it failed.
\<close>

record faults =
  write_fault :: "(os_error \<times> bytes option) option"
  rename_fault :: "os_error option"
  close_fault :: "os_error option"
  writefile_fault :: "(os_error \<times> bool) option"
  open_fault :: "os_error option"

text \<open>\<open>WAL.Close\<close>: flush the buffer, ignoring its error, then close the file.\<close>

definition wal_Close :: "os_error option \<Rightarrow> WAL \<Rightarrow> os_error option \<times> WAL" where
  "wal_Close fault w = (fault, buf_Flush w)"

text \<open>
  \<open>DB.Flush\<close>, under the faults \<open>flt\<close>; \<open>seed\<close> is the random source of the skip list
  that \<open>NewMemTable\<close> creates. The result is the error returned (\<open>None\<close> for \<open>nil\<close>), the
  engine and the SSTable directory after the call.
\<close>

definition Flush ::
  "faults \<Rightarrow> (nat \<Rightarrow> nat) \<Rightarrow> files \<Rightarrow> DB \<Rightarrow> (os_error option \<times> DB \<times> files) option" where
  "Flush flt seed fs d =
     (case RangeAll (mem d) [] [] of
        None \<Rightarrow> None
      | Some entries \<Rightarrow>
          if length entries = 0 then Some (None, d, fs)
          else
            let name = sst_name (nextID d);
                path = Join (sstDir d) name;
                tmp = path @ ''.tmp''
            in
     (case write_fault flt of
        Some (err, partial) \<Rightarrow> Some (Some err, d, (fs(tmp := partial))(tmp := None))
      | None \<Rightarrow>
          let fs1 = fs(tmp \<mapsto> WriteTable entries)
          in
     (case rename_fault flt of
        Some err \<Rightarrow> Some (Some err, d, fs1(tmp := None))
      | None \<Rightarrow>
          let fs2 = (fs1(tmp := None))(path := fs1 tmp);
              d1 = d\<lparr>sstables := path # sstables d, nextID := nextID d + 1,
                     mem := NewMemTable seed\<rparr>
          in
     (case wal_Close (close_fault flt) (wal d1) of
        (Some err, w) \<Rightarrow> Some (Some err, d1\<lparr>wal := w\<rparr>, fs2)
      | (None, w) \<Rightarrow>
     (case writefile_fault flt of
        Some (err, truncated) \<Rightarrow>
          Some (Some err, d1\<lparr>wal := (if truncated then w\<lparr>wal_file := []\<rparr> else w)\<rparr>, fs2)
      | None \<Rightarrow>
          let w1 = w\<lparr>wal_file := []\<rparr>
          in
     (case open_fault flt of
        Some err \<Rightarrow> Some (Some err, d1\<lparr>wal := w1\<rparr>, fs2)
      | None \<Rightarrow> Some (None, d1\<lparr>wal := wal_Open (wal_file w1)\<rparr>, fs2)))))))"

text \<open>An engine with the entry \<open>k = v\<close> in its memtable and one record in its WAL.\<close>

definition db_one :: DB where
  "db_one =
     \<lparr>mem = \<lparr>sl = \<lparr>nodes = [\<lparr>key = [], entry = zeroEntry,
                                forward = Some 1 # replicate 15 None\<rparr>,
                              \<lparr>key = [0x6B],
                                entry = \<lparr>Key = [0x6B], Value = [0x76], Tombstone = False\<rparr>,
                                forward = [None]\<rparr>],
                     head = 0, level = 1, rnd = (\<lambda>i. 1)\<rparr>\<rparr>,
      wal = \<lparr>wal_file = wal_encode (DoPut [0x6B] [0x76]), wal_buf = []\<rparr>,
      dir = ''data'', walPath = ''data/forge.wal'', sstDir = ''data/sst'',
      sstables = [''data/sst/000001.sst''], nextID = 2\<rparr>"

text \<open>A directory that holds \<open>file_stray_tail\<close> as table 1, and a call without faults.\<close>

definition fs_one :: files where
  "fs_one = (\<lambda>p. if p = ''data/sst/000001.sst'' then Some file_stray_tail else None)"

definition no_faults :: faults where
  "no_faults = \<lparr>write_fault = None, rename_fault = None, close_fault = None,
     writefile_fault = None, open_fault = None\<rparr>"

text \<open>
  An engine with no table yet, whose memtable holds the empty key with the value \<open>v\<close> and
  whose WAL holds the record of that \<open>Put\<close>; the same engine after a \<open>Flush\<close> without faults,
  and the SSTable directory that the flush leaves behind.
\<close>

definition db_empty_key :: DB where
  "db_empty_key =
     \<lparr>mem = \<lparr>sl = \<lparr>nodes = [\<lparr>key = [], entry = zeroEntry,
                                forward = Some 1 # replicate 15 None\<rparr>,
                              \<lparr>key = [],
                                entry = \<lparr>Key = [], Value = [0x76], Tombstone = False\<rparr>,
                                forward = [None]\<rparr>],
                     head = 0, level = 1, rnd = (\<lambda>i. 1)\<rparr>\<rparr>,
      wal = \<lparr>wal_file = wal_encode (DoPut [] [0x76]), wal_buf = []\<rparr>,
      dir = ''data'', walPath = ''data/forge.wal'', sstDir = ''data/sst'',
      sstables = [], nextID = 1\<rparr>"

definition db_empty_key_flushed :: DB where
  "db_empty_key_flushed =
     db_empty_key\<lparr>sstables := [''data/sst/000001.sst''], nextID := 2,
                  mem := NewMemTable (\<lambda>i. 1), wal := wal_Open []\<rparr>"

definition fs_empty_key :: files where
  "fs_empty_key = (\<lambda>p. if p = ''data/sst/000001.sst'' then Some table_empty_key else None)"

section \<open>Properties of the encodings\<close>

lemma rd32_le32 [simp]: "rd32 (le32 w) = w"
proof (rule bit_word_eqI)
  fix n assume "n < LENGTH(32)"
  then consider "n < 8" | "8 \<le> n" "n < 16" | "16 \<le> n" "n < 24" | "24 \<le> n" "n < 32"
    by force
  then show "bit (rd32 (le32 w)) n = bit w n"
    by cases (auto simp: rd32_def le32_def bit_simps)
qed

lemma rd64_le64 [simp]: "rd64 (le64 w) = w"
proof (rule bit_word_eqI)
  fix n assume "n < LENGTH(64)"
  then consider "n < 8" | "8 \<le> n" "n < 16" | "16 \<le> n" "n < 24" | "24 \<le> n" "n < 32"
     | "32 \<le> n" "n < 40" | "40 \<le> n" "n < 48" | "48 \<le> n" "n < 56" | "56 \<le> n" "n < 64"
    by force
  then show "bit (rd64 (le64 w)) n = bit w n"
    by cases (auto simp: rd64_def le64_def bit_simps)
qed

lemma length_le32 [simp]: "length (le32 w) = 4"
  by (simp add: le32_def)

lemma length_le64 [simp]: "length (le64 w) = 8"
  by (simp add: le64_def)

lemma ReadU32_le32 [simp]: "ReadU32 (le32 w @ r) = Inr (w, r)"
  by (simp add: ReadU32_def ReadFull_def) (simp add: le32_def)

lemma ReadU64_le64 [simp]: "ReadU64 (le64 w @ r) = Inr (w, r)"
  by (simp add: ReadU64_def ReadFull_def) (simp add: le64_def)

lemma ReadFull_append [simp]: "ReadFull (length b) (b @ r) = Inr (b, r)"
  by (cases b) (simp_all add: ReadFull_def)

lemma unat_of_nat32: "n < 2 ^ 32 \<Longrightarrow> unat (of_nat n :: 32 word) = n"
  by (simp add: unat_of_nat)

lemma of_nat32_eq_0: "n < 2 ^ 32 \<Longrightarrow> (of_nat n :: 32 word) = 0 \<longleftrightarrow> n = 0"
  using unat_of_nat32[of n] by (auto simp del: of_nat_eq_0_iff)

section \<open>WAL: appending and replaying\<close>

lemma apply_op_file:
  "apply_op w x = \<lparr>wal_file = wal_file w @ wal_buf w @ wal_encode x, wal_buf = []\<rparr>"
  by (cases x) (simp_all add: AppendPut_def AppendDelete_def buf_Write_def buf_Flush_def
      wal_encode_def Let_def)

lemma apply_ops_file:
  "wal_buf w = [] \<Longrightarrow>
   apply_ops ops w = \<lparr>wal_file = wal_file w @ concat (map wal_encode ops), wal_buf = []\<rparr>"
proof (induction ops arbitrary: w)
  case Nil
  then show ?case by (simp add: apply_ops_def)
next
  case (Cons x xs)
  have "apply_ops (x # xs) w = apply_ops xs (apply_op w x)"
    by (simp add: apply_ops_def)
  also have "\<dots> = \<lparr>wal_file = wal_file (apply_op w x) @ concat (map wal_encode xs), wal_buf = []\<rparr>"
    by (rule Cons.IH) (simp add: apply_op_file)
  finally show ?case using Cons.prems by (simp add: apply_op_file)
qed

lemma replay_step_encode:
  "fits32 x \<Longrightarrow> replay_step (wal_encode x @ r) = Some (Inr (record_of x, r))"
  by (cases x)
    (auto simp: wal_encode_def replay_step_def ReadByte_def unat_of_nat32 opPut_def opDelete_def
      word_greater_zero_iff of_nat32_eq_0)

lemma replay_loop_encode:
  "\<forall>x\<in>set ops. fits32 x \<Longrightarrow>
   replay_loop (concat (map wal_encode ops) @ r) out = replay_loop r (out @ map record_of ops)"
proof (induction ops arbitrary: out)
  case Nil
  then show ?case by simp
next
  case (Cons x xs)
  then show ?case
    by (subst replay_loop.simps) (simp add: replay_step_encode)
qed

lemma replay_loop_nil: "replay_loop [] out = Inr out"
  by (subst replay_loop.simps) (simp add: replay_step_def ReadByte_def)

text \<open>Whatever the loop returns extends the records collected so far.\<close>

lemma replay_loop_prefix:
  "replay_loop r out = Inr res \<Longrightarrow> take (length out) res = out"
proof (induction r out rule: replay_loop.induct)
  case (1 r out)
  show ?case
  proof (cases "replay_step r")
    case None
    with "1.prems" show ?thesis by (subst (asm) replay_loop.simps) simp
  next
    case (Some a)
    show ?thesis
    proof (cases a)
      case (Inl e)
      with Some "1.prems" show ?thesis by (subst (asm) replay_loop.simps) simp
    next
      case (Inr p)
      obtain rc r' where p: "p = (rc, r')" by (cases p)
      from "1.prems" Some Inr p have "replay_loop r' (out @ [rc]) = Inr res"
        by (subst (asm) replay_loop.simps) simp
      from "1.IH"[OF Some Inr p[symmetric] this]
      have "take (length (out @ [rc])) res = out @ [rc]" .
      then have "take (length out) (take (length (out @ [rc])) res) = take (length out) (out @ [rc])"
        by simp
      then show ?thesis by (simp add: min_def)
    qed
  qed
qed

lemma length_big_key: "length big_key = 2 ^ 32"
  by (simp add: big_key_def)

lemma replay_step_big:
  "replay_step (wal_encode (DoPut big_key []) @ r)
     = Some (Inr (\<lparr>Op = 0, RKey = [], RValue = []\<rparr>, big_key @ r))"
  by (simp add: wal_encode_def replay_step_def ReadByte_def length_big_key opPut_def opDelete_def
      ReadFull_def)

text \<open>
  Claim C2, as stated, at a key of \<open>2 ^ 32\<close> bytes: \<open>uint32(len(keyB))\<close> wraps to 0, so
  the record written for \<open>AppendPut(big_key, nil)\<close> announces an empty key, and whatever
  \<open>Replay\<close> returns for the file, it is not the one record with key \<open>big_key\<close>.
\<close>

theorem wal_roundtrip_counterexample:
  "Replay (Some (wal_file (apply_ops [DoPut big_key []] (wal_Open []))))
     \<noteq> Inr (map record_of [DoPut big_key []])"
proof
  assume a: "Replay (Some (wal_file (apply_ops [DoPut big_key []] (wal_Open []))))
     = Inr (map record_of [DoPut big_key []])"
  have f: "wal_file (apply_ops [DoPut big_key []] (wal_Open []))
      = wal_encode (DoPut big_key []) @ []"
    by (simp add: apply_ops_file wal_Open_def)
  have "replay_loop (wal_encode (DoPut big_key []) @ []) []
      = replay_loop (big_key @ []) ([] @ [\<lparr>Op = 0, RKey = [], RValue = []\<rparr>])"
    by (subst replay_loop.simps) (simp only: replay_step_big option.case sum.case prod.case)
  with a f have "replay_loop (big_key @ []) ([] @ [\<lparr>Op = 0, RKey = [], RValue = []\<rparr>])
      = Inr [\<lparr>Op = 0, RKey = big_key, RValue = []\<rparr>]"
    by (simp add: Replay_def)
  from replay_loop_prefix[OF this] have "big_key = []" by simp
  then have "length big_key = 0" by simp
  then show False by (simp add: length_big_key)
qed

text \<open>
  Claim C2, amended: for every finite sequence of \<open>AppendPut\<close>/\<open>AppendDelete\<close> operations
  whose keys and values are shorter than \<open>2 ^ 32\<close> bytes, applied in order to a WAL opened
  on a new (empty) file, \<open>Replay\<close> of the file succeeds and returns exactly one record per
  operation, in the same order: op byte 0 with the same key and value for a Put, op byte
  1 with the same key and an empty value for a Delete.
\<close>

theorem wal_roundtrip:
  assumes "\<forall>x\<in>set ops. fits32 x"
  shows "Replay (Some (wal_file (apply_ops ops (wal_Open [])))) = Inr (map record_of ops)"
proof -
  have "wal_file (apply_ops ops (wal_Open [])) = concat (map wal_encode ops) @ []"
    by (simp add: apply_ops_file wal_Open_def)
  then show ?thesis
    using assms
    by (simp only: Replay_def option.case replay_loop_encode replay_loop_nil append_Nil)
qed

theorem wal_roundtrip_witness:
  "Replay (Some (wal_file (apply_ops
       [DoPut [0x61] [0x31], DoPut [0x62] [0x68, 0x69], DoDelete [0x61]] (wal_Open []))))
     = Inr [\<lparr>Op = 0, RKey = [0x61], RValue = [0x31]\<rparr>,
            \<lparr>Op = 0, RKey = [0x62], RValue = [0x68, 0x69]\<rparr>,
            \<lparr>Op = 1, RKey = [0x61], RValue = []\<rparr>]"
  using wal_roundtrip[of "[DoPut [0x61] [0x31], DoPut [0x62] [0x68, 0x69], DoDelete [0x61]]"]
  by simp

section \<open>SSTable: the readers and the scan loop\<close>

lemma unat32_pos: "(0 < (w :: 32 word)) = (0 < unat w)"
  by (simp add: word_greater_zero_iff unat_gt_0)

lemma ReadFull_ge: "n \<le> length r \<Longrightarrow> ReadFull n r = Inr (take n r, drop n r)"
  by (cases r) (auto simp: ReadFull_def)

lemma ReadFull_lt: "length r < n \<Longrightarrow> \<exists>e. ReadFull n r = Inl e"
  by (auto simp: ReadFull_def)

lemma ReadU32_ge: "4 \<le> length r \<Longrightarrow> ReadU32 r = Inr (rd32 (take 4 r), drop 4 r)"
  by (simp add: ReadU32_def ReadFull_ge)

lemma ReadU32_lt: "length r < 4 \<Longrightarrow> \<exists>e. ReadU32 r = Inl e"
  using ReadFull_lt[of r 4] by (auto simp: ReadU32_def)

lemma ReadU64_ge: "8 \<le> length r \<Longrightarrow> ReadU64 r = Inr (rd64 (take 8 r), drop 8 r)"
  by (simp add: ReadU64_def ReadFull_ge)

lemma ReadByte_ge: "1 \<le> length r \<Longrightarrow> ReadByte r = Inr (hd r, tl r)"
  by (cases r) (auto simp: ReadByte_def)

lemma scan_step_enc:
  "length k < 2 ^ 32 \<Longrightarrow> length v < 2 ^ 32 \<Longrightarrow>
   scan_step (enc_rec (k, v, t) @ r) target =
     (if k = target then (if t = 1 then Stop (Inr ([], Deleted)) else Stop (Inr (v, Found)))
      else if k > target then Stop (Inr ([], NotFound))
      else Continue r)"
  by (auto simp: scan_step_def enc_rec_def ReadByte_def unat_of_nat32 word_greater_zero_iff
      of_nat32_eq_0)

lemma scan_loop_passed_over:
  "\<forall>x\<in>set recs. passed_over target x \<Longrightarrow>
   scan_loop (concat (map enc_rec recs) @ rest) target = scan_loop rest target"
proof (induction recs)
  case Nil
  then show ?case by simp
next
  case (Cons x xs)
  obtain k v t where x: "x = (k, v, t)" by (cases x)
  from Cons.prems x have kv: "k < target" "length k < 2 ^ 32" "length v < 2 ^ 32"
    by (simp_all add: passed_over_def)
  from kv(1) have ne: "k \<noteq> target" "\<not> target < k" by auto
  have "scan_step (enc_rec (k, v, t) @ (concat (map enc_rec xs) @ rest)) target
      = Continue (concat (map enc_rec xs) @ rest)"
    using kv ne by (simp add: scan_step_enc)
  then have "scan_loop (concat (map enc_rec (x # xs)) @ rest) target
      = scan_loop (concat (map enc_rec xs) @ rest) target"
    by (subst scan_loop.simps) (simp add: x)
  with Cons show ?case by simp
qed

lemma scan_loop_enc:
  "length k < 2 ^ 32 \<Longrightarrow> length v < 2 ^ 32 \<Longrightarrow> target \<le> k \<Longrightarrow>
   scan_loop (enc_rec (k, v, t) @ r) target =
     (if k = target then (if t = 1 then Inr ([], Deleted) else Inr (v, Found))
      else Inr ([], NotFound))"
  by (subst scan_loop.simps) (auto simp: scan_step_enc)

lemma scan_loop_short:
  "length r < 4 \<Longrightarrow> scan_loop r target = Inr ([], NotFound)"
proof -
  assume "length r < 4"
  from ReadU32_lt[OF this] obtain e where "ReadU32 r = Inl e" by blast
  then show ?thesis by (subst scan_loop.simps) (simp add: scan_step_def)
qed

lemma scan_step_truncated:
  assumes "truncated_record r"
  shows "scan_step r target = Stop (Inl ErrCorruptSST)"
proof -
  define kl where "kl = rd32 (take 4 r)"
  define vl where "vl = rd32 (take 4 (drop 4 r))"
  from assms have len: "4 \<le> length r" and tr: "length r < 9 \<or> length r < 9 + unat kl + unat vl"
    by (simp_all add: truncated_record_def kl_def vl_def)
  have a: "ReadU32 r = Inr (kl, drop 4 r)"
    using len by (simp add: ReadU32_ge kl_def)
  show ?thesis
  proof (cases "length r < 8")
    case True
    then have "length (drop 4 r) < 4" by simp
    from ReadU32_lt[OF this] obtain e where "ReadU32 (drop 4 r) = Inl e" by blast
    then show ?thesis by (simp add: scan_step_def a)
  next
    case False
    then have b: "ReadU32 (drop 4 r) = Inr (vl, drop 8 r)"
      by (simp add: ReadU32_ge vl_def)
    show ?thesis
    proof (cases "length r = 8")
      case True
      then have "ReadByte (drop 8 r) = Inl EOF" by (simp add: ReadByte_def)
      then show ?thesis by (simp add: scan_step_def a b)
    next
      case ne8: False
      have "drop (Suc 8) r = drop 8 (tl r)" by (rule drop_Suc)
      then have d9: "tl (drop 8 r) = drop 9 r" by (simp add: tl_drop)
      from ne8 False have "1 \<le> length (drop 8 r)" by simp
      from ReadByte_ge[OF this] have c: "ReadByte (drop 8 r) = Inr (hd (drop 8 r), drop 9 r)"
        by (simp only: d9)
      from ne8 False tr have tr': "length (drop 9 r) < unat kl + unat vl" by auto
      show ?thesis
      proof (cases "length (drop 9 r) < unat kl")
        case True
        from ReadFull_lt[OF this] obtain e where "ReadFull (unat kl) (drop 9 r) = Inl e"
          by blast
        then show ?thesis by (simp add: scan_step_def a b c)
      next
        case False
        then have d: "ReadFull (unat kl) (drop 9 r)
            = Inr (take (unat kl) (drop 9 r), drop (unat kl) (drop 9 r))"
          by (simp add: ReadFull_ge)
        from False tr' have short: "length (drop (unat kl) (drop 9 r)) < unat vl" by simp
        then have pos: "0 < vl" by (simp add: unat32_pos)
        from ReadFull_lt[OF short]
        obtain e where "ReadFull (unat vl) (drop (unat kl) (drop 9 r)) = Inl e" by blast
        then show ?thesis using pos by (simp add: scan_step_def a b c d)
      qed
    qed
  qed
qed

lemma scan_loop_truncated:
  "truncated_record r \<Longrightarrow> scan_loop r target = Inl ErrCorruptSST"
  by (subst scan_loop.simps) (simp add: scan_step_truncated)

text \<open>
  Claim C3, as stated, on \<open>file_stray_tail\<close> and the key \<open>b\<close>: the Bloom check passes and
  the index selects the range \<open>[8, 21)\<close>, which holds the record \<open>a\<close> and two stray bytes.
  Reading the next key length meets a short read inside the range, and \<open>Get\<close> returns
  \<open>NotFound\<close> with no error, not \<open>ErrCorruptSST\<close>.
\<close>

theorem scan_short_read_counterexample:
  "Get_section (Some file_stray_tail) [0x62] = Inr (enc_rec ([0x61], [0x31], 0) @ [0xEE, 0xEE])
   \<and> sst_Get (Some file_stray_tail) [0x62] = Inr ([], NotFound)"
  by code_simp

text \<open>
  Claim C3, amended: for every \<open>Get\<close> whose Bloom check passes and whose scan range has been
  selected from the index, once the scan has passed over the records with smaller keys:
  a record whose key equals the target returns \<open>Deleted\<close> when its tombstone byte is 1 and
  \<open>Found\<close> with its value otherwise; a record whose key is greater than the target stops
  the scan with \<open>NotFound\<close>; the end of the range, clean or with fewer than the 4 bytes of
  a key length left, yields \<open>NotFound\<close> without error; and a range that ends after a
  whole key length but before the end of the record it announces is reported as
  \<open>ErrCorruptSST\<close>.
\<close>

theorem scan_behaviour:
  assumes sec: "Get_section file target = Inr (concat (map enc_rec recs) @ rest)"
      and pre: "\<forall>x\<in>set recs. passed_over target x"
  shows "(\<forall>v t rs. rest = enc_rec (target, v, t) @ rs \<and> length target < 2 ^ 32
            \<and> length v < 2 ^ 32 \<longrightarrow>
            sst_Get file target = (if t = 1 then Inr ([], Deleted) else Inr (v, Found)))
       \<and> (\<forall>k v t rs. rest = enc_rec (k, v, t) @ rs \<and> target < k \<and> length k < 2 ^ 32
            \<and> length v < 2 ^ 32 \<longrightarrow> sst_Get file target = Inr ([], NotFound))
       \<and> (length rest < 4 \<longrightarrow> sst_Get file target = Inr ([], NotFound))
       \<and> (truncated_record rest \<longrightarrow> sst_Get file target = Inl ErrCorruptSST)"
proof -
  have "sst_Get file target = scan_loop rest target"
    using pre by (simp add: sst_Get_def sec scan_loop_passed_over)
  then show ?thesis
    by (auto simp: scan_loop_enc scan_loop_short scan_loop_truncated)
qed

theorem scan_behaviour_witness:
  "sst_Get (Some file_stray_tail) [0x62] = Inr ([], NotFound)
   \<and> sst_Get (Some file_stray_tail) [0x61] = Inr ([0x31], Found)"
proof -
  have s1: "Get_section (Some file_stray_tail) [0x62]
      = Inr (concat (map enc_rec [([0x61], [0x31], 0)]) @ [0xEE, 0xEE])"
    by code_simp
  have p1: "\<forall>x\<in>set [([0x61], [0x31], 0)]. passed_over [0x62 :: byte] x"
    by (simp add: passed_over_def)
  have s2: "Get_section (Some file_stray_tail) [0x61]
      = Inr (concat (map enc_rec []) @ (enc_rec ([0x61], [0x31], 0) @ [0xEE, 0xEE]))"
    by code_simp
  have p2: "\<forall>x\<in>set []. passed_over [0x61 :: byte] x"
    by simp
  from scan_behaviour[OF s1 p1] have "sst_Get (Some file_stray_tail) [0x62] = Inr ([], NotFound)"
    by simp
  moreover have "sst_Get (Some file_stray_tail) [0x61] = Inr ([0x31], Found)"
    using scan_behaviour[OF s2 p2, THEN conjunct1, rule_format, of "[0x31]" 0 "[0xEE, 0xEE]"]
    by simp
  ultimately show ?thesis by simp
qed

section \<open>Bloom filter: positions stay inside the bitset\<close>

lemma unat_ucast_32_64: "unat (ucast (m :: 32 word) :: 64 word) = unat m"
proof -
  have "unat m < 2 ^ 32" using unsigned_less[of m, where 'a=nat] by simp
  then have "unat m < 2 ^ 64" by simp
  then show ?thesis by (simp add: unsigned_ucast_eq take_bit_nat_eq_self)
qed

lemma bloom_pos_less:
  assumes "bf_m bf \<noteq> 0"
  shows "unat (bloom_pos bf s i) < unat (bf_m bf)"
proof -
  define h where "h = fnv64a s + ucast i * mix64 (fnv64a s XOR 0x9e3779b97f4a7c15)"
  have m0: "0 < unat (bf_m bf)" using assms by (simp add: unat_gt_0)
  have "unat (h mod ucast (bf_m bf)) = unat h mod unat (bf_m bf)"
    by (simp add: unat_mod unat_ucast_32_64)
  then have lt: "unat (h mod ucast (bf_m bf)) < unat (bf_m bf)"
    using m0 by simp
  have "unat (bf_m bf) < 2 ^ 32" using unsigned_less[of "bf_m bf", where 'a=nat] by simp
  with lt have "unat (h mod ucast (bf_m bf)) < 2 ^ 32" by simp
  then have "unat (ucast (h mod ucast (bf_m bf)) :: 32 word) = unat (h mod ucast (bf_m bf))"
    by (simp add: unsigned_ucast_eq take_bit_nat_eq_self)
  with lt show ?thesis by (simp add: bloom_pos_def Let_def h_def)
qed

lemma bloom_pos_in_range:
  assumes "bf_m bf \<noteq> 0" and "unat (bf_m bf) \<le> 8 * length (bf_b bf)"
  shows "unat (bloom_pos bf s i div 8) < length (bf_b bf)"
proof -
  have "unat (bloom_pos bf s i div 8) = unat (bloom_pos bf s i) div 8"
    by (simp add: unat_div)
  with bloom_pos_less[OF assms(1), of s i] assms(2) show ?thesis by simp
qed

lemma newBloom_range:
  "bf_m (newBloom (push_bit 20 1) 7) \<noteq> 0 \<and>
   unat (bf_m (newBloom (push_bit 20 1) 7)) \<le> 8 * length (bf_b (newBloom (push_bit 20 1) 7))"
  by (simp add: newBloom_def)

lemma bloom_set_range:
  "bf_m (bloom_set i bf) = bf_m bf \<and> length (bf_b (bloom_set i bf)) = length (bf_b bf)"
  by (simp add: bloom_set_def Let_def)

section \<open>SSTable: the data region that WriteTable emits\<close>

lemma cw_w_Write [simp]: "cw_w (cw_Write p w) = cw_w w @ p"
  by (simp add: cw_Write_def)

lemma cw_w_write_record:
  "cw_w (fst (write_record i e (w, idx, bf))) = cw_w w @ encode_entry e"
  by (simp add: write_record_def Let_def cw_Write_def cw_WriteByte_def encode_entry_def enc_rec_def)

lemma cw_w_write_records:
  "cw_w (fst (write_records i es st)) = cw_w (fst st) @ concat (map encode_entry es)"
proof (induction es arbitrary: i st)
  case Nil
  then show ?case by simp
next
  case (Cons e es)
  obtain w idx bf where st: "st = (w, idx, bf)" by (cases st)
  show ?case by (simp add: Cons.IH st cw_w_write_record)
qed

lemma cw_w_index: "\<exists>t. cw_w (foldl (\<lambda>w it. write_index_entry it w) w idx) = cw_w w @ t"
proof (induction idx arbitrary: w)
  case Nil
  then show ?case by simp
next
  case (Cons it idx)
  from Cons.IH[of "write_index_entry it w"] obtain t
    where "cw_w (foldl (\<lambda>w it. write_index_entry it w) (write_index_entry it w) idx)
        = cw_w (write_index_entry it w) @ t" by blast
  then show ?case by (simp add: write_index_entry_def Let_def cw_Write_def)
qed

lemma WriteTable_data:
  "\<exists>tail. WriteTable entries
     = le32 magic @ le32 (of_nat (length entries)) @ concat (map encode_entry entries) @ tail"
proof -
  define w1 where "w1 = cw_Write (le32 (of_nat (length entries))) (cw_Write (le32 magic) newCountWriter)"
  define st where "st = write_records 0 entries (w1, [], newBloom (push_bit 20 1) 7)"
  obtain w2 idx bf where st2: "st = (w2, idx, bf)" by (cases st)
  have w1: "cw_w w1 = le32 magic @ le32 (of_nat (length entries))"
    by (simp add: w1_def cw_Write_def newCountWriter_def)
  have "cw_w (fst st) = cw_w w1 @ concat (map encode_entry entries)"
    unfolding st_def using cw_w_write_records[of 0 entries "(w1, [], newBloom (push_bit 20 1) 7)"] by simp
  then have w2: "cw_w w2 = le32 magic @ le32 (of_nat (length entries)) @ concat (map encode_entry entries)"
    by (simp add: st2 w1)
  define w3 where "w3 = cw_Write (le32 (of_nat (length idx))) w2"
  define w4 where "w4 = foldl (\<lambda>w it. write_index_entry it w) w3 idx"
  obtain t where t: "cw_w w4 = cw_w w3 @ t"
    unfolding w4_def using cw_w_index by blast
  have w3: "cw_w w3 = cw_w w2 @ le32 (of_nat (length idx))"
    by (simp add: w3_def cw_Write_def)
  have "WriteTable entries = (case st of (w2, idx, bf) \<Rightarrow>
     (let indexStartOffset = cw_n w2;
          w3 = cw_Write (le32 (of_nat (length idx))) w2;
          w4 = foldl (\<lambda>w it. write_index_entry it w) w3 idx;
          bloomStartOffset = cw_n w4;
          w5 = cw_Write (marshal bf) w4;
          w6 = cw_Write (le64 indexStartOffset) w5;
          w7 = cw_Write (le64 bloomStartOffset) w6
      in cw_w w7))"
    by (simp add: WriteTable_def st_def w1_def Let_def)
  also have "\<dots> = cw_w w4 @ marshal bf @ le64 (cw_n w2) @ le64 (cw_n w4)"
    by (simp add: st2 Let_def w3_def[symmetric] w4_def[symmetric])
  finally have "WriteTable entries
      = le32 magic @ le32 (of_nat (length entries)) @ concat (map encode_entry entries)
        @ (le32 (of_nat (length idx)) @ t @ marshal bf @ le64 (cw_n w2) @ le64 (cw_n w4))"
    by (simp add: t w3 w2)
  then show ?thesis by blast
qed

text \<open>
  Claim C4, as stated, fails on both sides. On the write side, for a tombstone entry that
  carries the value byte \<open>0x31\<close>, the record that \<open>WriteTable\<close> emits at offset 8 has
  \<open>valLen = 1\<close> and ends with that byte. On the read side, \<open>Get\<close> on \<open>file_tomb_value\<close>,
  whose record has \<open>tomb = 1\<close> and \<open>valLen = 1\<close>, decodes the record and returns \<open>Deleted\<close>
  with no error.
\<close>

theorem tombstone_vallen_counterexample:
  "take 11 (drop 8 (WriteTable [tomb_with_value])) = [1, 0, 0, 0, 1, 0, 0, 0, 1, 0x61, 0x31]
   \<and> sst_Get (Some file_tomb_value) [0x61] = Inr ([], Deleted)"
proof -
  obtain tail where "WriteTable [tomb_with_value]
      = le32 magic @ le32 (of_nat (length [tomb_with_value]))
        @ concat (map encode_entry [tomb_with_value]) @ tail"
    using WriteTable_data by blast
  then have "take 11 (drop 8 (WriteTable [tomb_with_value])) = encode_entry tomb_with_value"
    by (simp add: encode_entry_def enc_rec_def tomb_with_value_def)
  also have "\<dots> = [1, 0, 0, 0, 1, 0, 0, 0, 1, 0x61, 0x31]"
    by (simp add: encode_entry_def enc_rec_def tomb_with_value_def le32_def)
  finally have w: "take 11 (drop 8 (WriteTable [tomb_with_value]))
      = [1, 0, 0, 0, 1, 0, 0, 0, 1, 0x61, 0x31]" .
  have "sst_Get (Some file_tomb_value) [0x61] = Inr ([], Deleted)"
    by code_simp
  with w show ?thesis by simp
qed

text \<open>
  Claim C4, amended: \<open>WriteTable\<close> writes, after the 8 bytes of the header, one record per
  entry, in order, whose \<open>valLen\<close> is the length of the entry's value and whose value bytes
  are the entry's value, whatever the tombstone flag; so a tombstone entry is emitted with
  \<open>valLen = 0\<close> and no value bytes when its value is empty (as in every entry that
  \<open>MemTable.Delete\<close> stores). \<open>Get\<close> does not check the invariant: when the scan reaches a
  record with \<open>tomb = 1\<close> whose key equals the target, it returns \<open>Deleted\<close> without error,
  whatever \<open>valLen\<close> is.
\<close>

theorem tombstone_vallen:
  "(\<exists>tail. WriteTable entries
       = le32 magic @ le32 (of_nat (length entries)) @ concat (map encode_entry entries) @ tail)
   \<and> (\<forall>e\<in>set entries. encode_entry e =
         le32 (of_nat (length (Key e))) @ le32 (of_nat (length (Value e)))
         @ [if Tombstone e then 1 else 0] @ Key e @ Value e)
   \<and> (\<forall>e\<in>set entries. Tombstone e \<and> Value e = [] \<longrightarrow>
         encode_entry e = le32 (of_nat (length (Key e))) @ le32 0 @ [1] @ Key e)
   \<and> (Get_section file target = Inr (concat (map enc_rec recs) @ enc_rec (target, v, 1) @ rest)
        \<and> (\<forall>x\<in>set recs. passed_over target x)
        \<and> length target < 2 ^ 32 \<and> length v < 2 ^ 32 \<longrightarrow>
        sst_Get file target = Inr ([], Deleted))"
proof -
  have "Get_section file target = Inr (concat (map enc_rec recs) @ enc_rec (target, v, 1) @ rest)
        \<and> (\<forall>x\<in>set recs. passed_over target x)
        \<and> length target < 2 ^ 32 \<and> length v < 2 ^ 32 \<longrightarrow>
        sst_Get file target = Inr ([], Deleted)"
    by (simp add: sst_Get_def scan_loop_passed_over scan_loop_enc)
  then show ?thesis
    using WriteTable_data[of entries] by (simp add: encode_entry_def enc_rec_def)
qed

theorem tombstone_vallen_witness:
  "(\<exists>tail. WriteTable [tomb_plain]
       = le32 magic @ le32 (of_nat (length [tomb_plain])) @ concat (map encode_entry [tomb_plain]) @ tail)
   \<and> encode_entry tomb_plain = [1, 0, 0, 0, 0, 0, 0, 0, 1, 0x63]
   \<and> sst_Get (Some file_tomb_value) [0x61] = Inr ([], Deleted)"
proof -
  note t = tombstone_vallen[of "[tomb_plain]" "Some file_tomb_value" "[0x61]" "[]" "[0x31]" "[]"]
  have s: "Get_section (Some file_tomb_value) [0x61]
      = Inr (concat (map enc_rec []) @ enc_rec ([0x61], [0x31], 1) @ [])"
    by code_simp
  have e: "Tombstone tomb_plain \<and> Value tomb_plain = []"
    by (simp add: tomb_plain_def)
  from t e have "encode_entry tomb_plain
      = le32 (of_nat (length (Key tomb_plain))) @ le32 0 @ [1] @ Key tomb_plain"
    by simp
  then have 2: "encode_entry tomb_plain = [1, 0, 0, 0, 0, 0, 0, 0, 1, 0x63]"
    by (simp add: tomb_plain_def le32_def)
  from t s have 3: "sst_Get (Some file_tomb_value) [0x61] = Inr ([], Deleted)"
    by simp
  from t have 1: "\<exists>tail. WriteTable [tomb_plain]
       = le32 magic @ le32 (of_nat (length [tomb_plain])) @ concat (map encode_entry [tomb_plain]) @ tail"
    by (rule conjunct1)
  from 1 2 3 show ?thesis by (intro conjI)
qed

section \<open>SSTable: the index\<close>

lemma ReadFull_Inr_length: "ReadFull n r = Inr (b, r') \<Longrightarrow> length b = n"
  by (auto simp: ReadFull_def split: if_splits)

lemma load_entries_valid:
  "load_entries n ioff r = Inr es \<Longrightarrow>
   length es = n \<and>
   (\<forall>e\<in>set es. 0 < length (ikey e) \<and> length (ikey e) \<le> 2 ^ 20
       \<and> of_nat headerSize \<le> ioffset e \<and> ioffset e < ioff)"
proof (induction n arbitrary: r es)
  case 0
  then show ?case by simp
next
  case (Suc n)
  from Suc.prems obtain keyLen r1 keyB r2 off r3 es'
    where rd: "ReadU32 r = Inr (keyLen, r1)" "keyLen \<noteq> 0" "keyLen \<le> maxIndexKeySize"
      "ReadFull (unat keyLen) r1 = Inr (keyB, r2)" "ReadU64 r2 = Inr (off, r3)"
      "\<not> off < of_nat headerSize" "off < ioff"
      "load_entries n ioff r3 = Inr es'" "es = \<lparr>ikey = keyB, ioffset = off\<rparr> # es'"
    by (auto split: sum.splits prod.splits if_splits)
  from ReadFull_Inr_length[OF rd(4)] have lk: "length keyB = unat keyLen" .
  from rd(2) have "0 < unat keyLen" by (simp add: unat_gt_0)
  moreover from rd(3) have "unat keyLen \<le> 2 ^ 20"
    by (simp add: maxIndexKeySize_def word_le_nat_alt)
  ultimately have "0 < length keyB \<and> length keyB \<le> 2 ^ 20" by (simp add: lk)
  with Suc.IH[OF rd(8)] rd(6,7,9) show ?case by auto
qed

lemma SliceIsSorted_sorted: "SliceIsSorted ks \<longleftrightarrow> sorted ks"
proof (induction ks rule: SliceIsSorted.induct)
  case (1 x y rest)
  have "sorted (x # y # rest) \<longleftrightarrow> x \<le> y \<and> sorted (y # rest)"
    by (rule sorted2)
  with 1 show ?case by (simp only: SliceIsSorted.simps not_less)
qed simp_all

text \<open>
  What an index that \<open>loadIndex\<close> accepts satisfies: it is not empty and has at most
  \<open>2 ^ 20\<close> entries, every key has between 1 and \<open>2 ^ 20\<close> bytes, every record offset lies
  in \<open>[headerSize, indexStartOffset)\<close>, and the keys do not descend; equal neighbours
  pass.
\<close>

lemma loadIndex_validated:
  assumes "loadIndex f = Inr (entries, ioff)"
  shows "entries \<noteq> [] \<and> length entries \<le> 2 ^ 20
     \<and> (\<forall>e\<in>set entries. 0 < length (ikey e) \<and> length (ikey e) \<le> 2 ^ 20
           \<and> of_nat headerSize \<le> ioffset e \<and> ioffset e < ioff)
     \<and> sorted (map ikey entries)"
proof -
  from assms obtain boff cnt r
    where ld: "loadFooter f = Inr (ioff, boff)" "ReadU32 (drop (unat ioff) f) = Inr (cnt, r)"
      "cnt \<noteq> 0" "cnt \<le> maxIndexCount" "load_entries (unat cnt) ioff r = Inr entries"
      "SliceIsSorted (map ikey entries)"
    by (auto simp: loadIndex_def split: sum.splits prod.splits if_splits)
  note v = load_entries_valid[OF ld(5)]
  from ld(3) have "0 < unat cnt" by (simp add: unat_gt_0)
  moreover from ld(4) have "unat cnt \<le> 2 ^ 20"
    by (simp add: maxIndexCount_def word_le_nat_alt)
  ultimately have "entries \<noteq> [] \<and> length entries \<le> 2 ^ 20" using v by auto
  with v ld(6) show ?thesis by (simp add: SliceIsSorted_sorted)
qed

text \<open>
  Claim C5 on \<open>file_dup_index\<close>, whose index holds the key \<open>a\<close> twice in a row:
  \<open>sort.SliceIsSorted\<close> with \<open>less = (<)\<close> only rejects a key that is smaller than its
  predecessor, so \<open>loadIndex\<close> accepts the index and \<open>Get\<close> of \<open>a\<close>, which reaches the index,
  returns \<open>Found\<close> instead of the corruption error.
\<close>

theorem index_duplicate_keys_accepted:
  "loadIndex file_dup_index
     = Inr ([\<lparr>ikey = [0x61], ioffset = 8\<rparr>, \<lparr>ikey = [0x61], ioffset = 8\<rparr>], 19)
   \<and> sst_Get (Some file_dup_index) [0x61] = Inr ([0x31], Found)"
  by code_simp

section \<open>SSTable: the Bloom filter is consulted before the index\<close>

lemma unat_footerStart: "16 \<le> n \<Longrightarrow> unat ((of_nat n :: 64 word) - of_nat footerSize) \<le> n - 16"
proof -
  assume a: "16 \<le> n"
  then have "(of_nat n :: 64 word) - of_nat footerSize = of_nat (n - 16)"
    by (simp add: footerSize_def)
  moreover have "unat (of_nat (n - 16) :: 64 word) \<le> n - 16"
    by (simp add: unat_of_nat)
  ultimately show ?thesis by simp
qed

lemma loadFooter_bounds:
  assumes "loadFooter f = Inr (ioff, boff)"
  shows "24 \<le> length f" and "8 \<le> unat ioff" and "unat ioff < unat boff"
    and "unat boff < length f - 16"
proof -
  from assms show len: "24 \<le> length f"
    by (auto simp: loadFooter_def Let_def headerSize_def footerSize_def split: if_splits)
  from assms len have w: "\<not> ioff < of_nat headerSize" "\<not> boff \<le> ioff"
      "\<not> boff \<ge> (of_nat (length f) :: 64 word) - of_nat footerSize"
    by (auto simp: loadFooter_def Let_def split: if_splits sum.splits prod.splits)
  from w(1) show "8 \<le> unat ioff"
    by (simp add: headerSize_def word_less_nat_alt)
  from w(2) show "unat ioff < unat boff"
    by (simp add: word_le_nat_alt)
  from w(3) have "unat boff < unat ((of_nat (length f) :: 64 word) - of_nat footerSize)"
    by (simp add: word_le_nat_alt)
  with unat_footerStart[of "length f"] len show "unat boff < length f - 16" by simp
qed

lemma loadFooter_cong:
  assumes a: "length g = length f"
      and b: "drop (length f - 16) g = drop (length f - 16) f"
  shows "loadFooter g = loadFooter f"
  unfolding loadFooter_def footerSize_def Let_def a b by (rule refl)

lemma Get_bloom_cong:
  assumes len: "length g = length f"
      and hd: "take 8 g = take 8 f"
      and ft: "loadFooter f = Inr (ioff, boff)"
      and ftg: "loadFooter g = loadFooter f"
      and bl: "drop (unat boff) g = drop (unat boff) f"
  shows "Get_bloom g = Get_bloom f"
proof -
  from loadFooter_bounds(1)[OF ft] have l: "24 \<le> length f" .
  have "take 4 (take 8 g) = take 4 (take 8 f)" by (simp only: hd)
  then have m: "take 4 g = take 4 f" by simp
  have a: "ReadU32 f = Inr (rd32 (take 4 f), drop 4 f)"
    using l by (simp add: ReadU32_ge)
  have a': "ReadU32 g = Inr (rd32 (take 4 f), drop 4 g)"
    using l len by (simp add: ReadU32_ge m)
  have b: "ReadU32 (drop 4 f) = Inr (rd32 (take 4 (drop 4 f)), drop 4 (drop 4 f))"
    using l by (simp add: ReadU32_ge)
  have b': "ReadU32 (drop 4 g) = Inr (rd32 (take 4 (drop 4 g)), drop 4 (drop 4 g))"
    using l len by (simp add: ReadU32_ge)
  show ?thesis
    by (simp add: Get_bloom_def a a' b b' ftg ft len bl)
qed

text \<open>
  Claim C6: when the header, the footer and the Bloom region of a table are valid and its
  filter answers \<open>mayContain = false\<close> for a key, \<open>Get\<close> of that key returns \<open>NotFound\<close> with
  no error, whatever bytes \<open>junk\<close> stand in the index region
  \<open>[indexStartOffset, bloomStartOffset)\<close> of the file: the result does not depend on that
  region, which is never read.
\<close>

theorem bloom_negative_short_circuit:
  assumes gb: "Get_bloom f = Inr (bf, ioff, boff)"
      and neg: "mayContain bf target = Some False"
      and junk: "length junk = unat boff - unat ioff"
  shows "sst_Get (Some (take (unat ioff) f @ junk @ drop (unat boff) f)) target = Inr ([], NotFound)"
proof -
  define g where "g = take (unat ioff) f @ junk @ drop (unat boff) f"
  from gb have ft: "loadFooter f = Inr (ioff, boff)"
    by (auto simp: Get_bloom_def Let_def split: sum.splits prod.splits if_splits option.splits)
  note b = loadFooter_bounds[OF ft]
  have len: "length g = length f"
    using b junk by (simp add: g_def)
  have pre: "length (take (unat ioff) f @ junk) = unat boff"
    using b junk by simp
  have dr: "drop (unat boff) g = drop (unat boff) f"
    unfolding g_def using pre by (metis append.assoc append_eq_conv_conj)
  have "drop (length f - 16) g = drop (length f - 16 - unat boff) (drop (unat boff) g)"
    using b by simp
  also have "\<dots> = drop (length f - 16) f"
    using b by (simp add: dr)
  finally have ftg: "loadFooter g = loadFooter f"
    by (rule loadFooter_cong[OF len])
  have hd: "take 8 g = take 8 f"
    using b by (simp add: g_def)
  have "Get_bloom g = Inr (bf, ioff, boff)"
    using Get_bloom_cong[OF len hd ft ftg dr] gb by simp
  then show ?thesis
    by (simp add: sst_Get_def Get_section_def neg g_def[symmetric])
qed

theorem bloom_negative_short_circuit_witness:
  "sst_Get (Some (take (unat (19 :: 64 word)) file_bloom_none @ replicate 17 0xFF
                  @ drop (unat (36 :: 64 word)) file_bloom_none)) [0x61]
     = Inr ([], NotFound)"
proof -
  have gb: "Get_bloom file_bloom_none = Inr (\<lparr>bf_m = 8, bf_k = 1, bf_b = [0]\<rparr>, 19, 36)"
    by code_simp
  have neg: "mayContain \<lparr>bf_m = 8, bf_k = 1, bf_b = [0]\<rparr> [0x61] = Some False"
    by code_simp
  have junk: "length (replicate 17 (0xFF :: byte)) = unat (36 :: 64 word) - unat (19 :: 64 word)"
    by simp
  show ?thesis
    by (rule bloom_negative_short_circuit[OF gb neg junk])
qed

section \<open>Engine: lookup\<close>

lemma get_sstables_skip:
  "\<forall>q\<in>set pre. \<exists>v. sst_Get (fs q) k = Inr (v, NotFound) \<Longrightarrow>
   get_sstables fs (pre @ rest) k = get_sstables fs rest k"
  by (induction pre) auto

text \<open>
  Claim C1: if the memtable holds an entry for the key, \<open>Get\<close> returns not-present when
  the entry is a tombstone and its value otherwise, whatever the SSTable stack and the
  files are; on a memtable miss the SSTables are consulted newest first: after the
  tables \<open>pre\<close> that answer \<open>NotFound\<close>, the first table that answers \<open>Found\<close> yields its
  value, the first that answers \<open>Deleted\<close> yields not-present, a read error yields
  not-present, and the end of the stack yields not-present.
\<close>

theorem DB_Get_stack:
  "(mem_GetAll (mem d) k = Some (e, True) \<longrightarrow>
      DB_Get fs d k = Some (if Tombstone e then ([], False) else (Value e, True)))
   \<and> (mem_GetAll (mem d) k = Some (e, False) \<and> sstables d = pre @ rest
        \<and> (\<forall>q\<in>set pre. \<exists>v. sst_Get (fs q) k = Inr (v, NotFound)) \<longrightarrow>
         (rest = [] \<longrightarrow> DB_Get fs d k = Some ([], False))
       \<and> (\<forall>p post v. rest = p # post \<and> sst_Get (fs p) k = Inr (v, Found) \<longrightarrow>
             DB_Get fs d k = Some (v, True))
       \<and> (\<forall>p post v. rest = p # post \<and> sst_Get (fs p) k = Inr (v, Deleted) \<longrightarrow>
             DB_Get fs d k = Some ([], False))
       \<and> (\<forall>p post err. rest = p # post \<and> sst_Get (fs p) k = Inl err \<and> err \<noteq> Panic \<longrightarrow>
             DB_Get fs d k = Some ([], False)))"
proof -
  have 1: "mem_GetAll (mem d) k = Some (e, True) \<longrightarrow>
      DB_Get fs d k = Some (if Tombstone e then ([], False) else (Value e, True))"
    by (simp add: DB_Get_def)
  have 2: "DB_Get fs d k = get_sstables fs rest k"
    if "mem_GetAll (mem d) k = Some (e, False)" "sstables d = pre @ rest"
       "\<forall>q\<in>set pre. \<exists>v. sst_Get (fs q) k = Inr (v, NotFound)"
    using that by (simp add: DB_Get_def get_sstables_skip)
  have 3: "get_sstables fs (p # post) k = Some ([], False)"
    if "sst_Get (fs p) k = Inl err" "err \<noteq> Panic" for p post err
    using that by (cases err) simp_all
  show ?thesis
    using 1 2 3 by auto
qed

theorem DB_Get_stack_witness:
  "DB_Get fs_one db_one [0x6B] = Some ([0x76], True)
   \<and> DB_Get fs_one db_one [0x61] = Some ([0x31], True)"
proof -
  have a: "mem_GetAll (mem db_one) [0x6B]
      = Some (\<lparr>Key = [0x6B], Value = [0x76], Tombstone = False\<rparr>, True)"
    by code_simp
  have b: "mem_GetAll (mem db_one) [0x61] = Some (zeroEntry, False)"
    by code_simp
  have c: "sstables db_one = [] @ [''data/sst/000001.sst'']"
    by (simp add: db_one_def)
  have d: "sst_Get (fs_one ''data/sst/000001.sst'') [0x61] = Inr ([0x31], Found)"
    by code_simp
  have "DB_Get fs_one db_one [0x6B] = Some ([0x76], True)"
    using DB_Get_stack[of db_one "[0x6B]" "\<lparr>Key = [0x6B], Value = [0x76], Tombstone = False\<rparr>"
        fs_one "[]" "[]"] a
    by simp
  moreover have "DB_Get fs_one db_one [0x61] = Some ([0x31], True)"
    using DB_Get_stack[of db_one "[0x61]" zeroEntry fs_one "[]" "[''data/sst/000001.sst'']"] b c d
    by simp
  ultimately show ?thesis by simp
qed

section \<open>Engine: flush\<close>

text \<open>
  Claim C7: when the memtable is not empty and writing the temporary file or renaming it
  fails, \<open>Flush\<close> returns that error, the temporary file is gone, and the engine, with its
  SSTable stack, memtable, next id and WAL, is as before the call.
\<close>

theorem Flush_failure_before_publish:
  assumes "RangeAll (mem d) [] [] = Some entries" and "entries \<noteq> []"
      and "write_fault flt = Some (err, partial)
           \<or> (write_fault flt = None \<and> rename_fault flt = Some err)"
  shows "Flush flt seed fs d
     = Some (Some err, d, fs(Join (sstDir d) (sst_name (nextID d)) @ ''.tmp'' := None))"
  using assms by (auto simp: Flush_def Let_def)

theorem Flush_failure_before_publish_witness:
  "Flush (no_faults\<lparr>rename_fault := Some (OsError 13)\<rparr>) (\<lambda>i. 1) fs_one db_one
     = Some (Some (OsError 13), db_one, fs_one(''data/sst/000002.sst.tmp'' := None))"
proof -
  have a: "RangeAll (mem db_one) [] []
      = Some [\<lparr>Key = [0x6B], Value = [0x76], Tombstone = False\<rparr>]"
    by code_simp
  have b: "Join (sstDir db_one) (sst_name (nextID db_one)) @ ''.tmp'' = ''data/sst/000002.sst.tmp''"
    by code_simp
  show ?thesis
    using Flush_failure_before_publish[OF a, of "no_faults\<lparr>rename_fault := Some (OsError 13)\<rparr>"
        "OsError 13" None "\<lambda>i. 1" fs_one]
    by (simp add: no_faults_def b)
qed

text \<open>
  Claim C9: when the table has been renamed into place and closing the WAL, overwriting
  its file or reopening it fails, \<open>Flush\<close> returns that error although the new table is
  already first in the stack (and on disk), the memtable is a fresh empty one and the
  next id has advanced; when the failure is that of \<open>Close\<close>, or of \<open>os.WriteFile\<close> before
  it truncated the file, the WAL still holds the records from before the flush.
\<close>

theorem Flush_failure_after_publish:
  assumes "RangeAll (mem d) [] [] = Some entries" and "entries \<noteq> []"
      and "write_fault flt = None" and "rename_fault flt = None"
      and "close_fault flt = Some err
           \<or> (close_fault flt = None \<and> (\<exists>t. writefile_fault flt = Some (err, t)))
           \<or> (close_fault flt = None \<and> writefile_fault flt = None \<and> open_fault flt = Some err)"
  shows "\<exists>d' fs'. Flush flt seed fs d = Some (Some err, d', fs')
     \<and> sstables d' = Join (sstDir d) (sst_name (nextID d)) # sstables d
     \<and> mem d' = NewMemTable seed
     \<and> nextID d' = nextID d + 1
     \<and> fs' (Join (sstDir d) (sst_name (nextID d))) = Some (WriteTable entries)
     \<and> (close_fault flt = Some err \<or> writefile_fault flt = Some (err, False) \<longrightarrow>
          wal_file (wal d') = wal_file (wal d) @ wal_buf (wal d))"
  using assms by (auto simp: Flush_def Let_def wal_Close_def buf_Flush_def)

theorem Flush_failure_after_publish_witness:
  "\<exists>d' fs'. Flush (no_faults\<lparr>close_fault := Some (OsError 5)\<rparr>) (\<lambda>i. 1) fs_one db_one
       = Some (Some (OsError 5), d', fs')
     \<and> sstables d' = [''data/sst/000002.sst'', ''data/sst/000001.sst'']
     \<and> mem d' = NewMemTable (\<lambda>i. 1)
     \<and> nextID d' = 3
     \<and> wal_file (wal d') = wal_encode (DoPut [0x6B] [0x76])"
proof -
  have a: "RangeAll (mem db_one) [] []
      = Some [\<lparr>Key = [0x6B], Value = [0x76], Tombstone = False\<rparr>]"
    by code_simp
  have b: "Join (sstDir db_one) (sst_name (nextID db_one)) = ''data/sst/000002.sst''"
    by code_simp
  show ?thesis
    using Flush_failure_after_publish[OF a, of "no_faults\<lparr>close_fault := Some (OsError 5)\<rparr>"
        "OsError 5" "\<lambda>i. 1" fs_one]
    by (simp add: no_faults_def b) (auto simp: db_one_def)
qed

section \<open>Skip list: paths through the store\<close>

lemma fwd_valid: "x < length ns \<Longrightarrow> i < height ns x \<Longrightarrow> fwd ns x i = Some (next_at ns i x)"
  by (simp add: fwd_def deref_def height_def next_at_def)

lemma deref_valid: "x < length ns \<Longrightarrow> deref ns x = Some (ns ! x)"
  by (simp add: deref_def)

lemma seg_append: "seg ns i p (as @ bs) q \<longleftrightarrow> (\<exists>r. seg ns i p as r \<and> seg ns i r bs q)"
  by (induction as arbitrary: p) auto

lemma seg_last: "seg ns i (next_at ns i x) as r \<Longrightarrow> r = next_at ns i (last (x # as))"
  by (induction as arbitrary: x) auto

lemma seg_valid: "seg ns i p as q \<Longrightarrow> a \<in> set as \<Longrightarrow> a < length ns \<and> i < height ns a"
  by (induction as arbitrary: p) auto

lemma seg_frame:
  assumes "seg ns i p as q"
      and "\<forall>a\<in>set as. a < length ns' \<and> height ns' a = height ns a \<and> next_at ns' i a = next_at ns i a"
  shows "seg ns' i p as q"
  using assms by (induction as arbitrary: p) auto

lemma seg_redirect:
  assumes "seg ns i (next_at ns i x) as r"
      and "distinct (x # as)"
      and "\<forall>a\<in>set (x # as). a < length ns' \<and> height ns' a = height ns a
             \<and> (a \<noteq> last (x # as) \<longrightarrow> next_at ns' i a = next_at ns i a)"
      and "next_at ns' i (last (x # as)) = q"
  shows "seg ns' i (next_at ns' i x) as q"
  using assms
proof (induction as arbitrary: x)
  case Nil
  then show ?case by simp
next
  case (Cons a as)
  from Cons.prems(2) have xa: "x \<noteq> last (x # a # as)"
    by (metis distinct.simps(2) last.simps last_in_set list.distinct(1))
  with Cons.prems(3) have nx: "next_at ns' i x = next_at ns i x" by simp
  from Cons.prems(1) have a: "next_at ns i x = Some a" "a < length ns" "i < height ns a"
    "seg ns i (next_at ns i a) as r" by simp_all
  have "seg ns' i (next_at ns' i a) as q"
  proof (rule Cons.IH[OF a(4)])
    show "distinct (a # as)" using Cons.prems(2) by simp
    show "\<forall>b\<in>set (a # as). b < length ns' \<and> height ns' b = height ns b
             \<and> (b \<noteq> last (a # as) \<longrightarrow> next_at ns' i b = next_at ns i b)"
      using Cons.prems(3) by simp
    show "next_at ns' i (last (a # as)) = q" using Cons.prems(4) by simp
  qed
  moreover from Cons.prems(3) have "a < length ns'" "height ns' a = height ns a" by simp_all
  ultimately show ?case using nx a by simp
qed

lemma walk_seg:
  assumes "seg ns i (next_at ns i x) as None" and "x < length ns" and "i < height ns x"
  shows "walk ns k i x = Some (last (x # takeWhile (\<lambda>a. key_of ns a < k) as))"
  using assms
proof (induction as arbitrary: x)
  case Nil
  then show ?case
    by (subst walk.simps) (simp add: fwd_valid)
next
  case (Cons a as)
  from Cons.prems(1) have a: "next_at ns i x = Some a" "a < length ns" "i < height ns a"
    "seg ns i (next_at ns i a) as None" by simp_all
  show ?case
  proof (cases "key_of ns a < k")
    case True
    have "walk ns k i x = walk ns k i a"
      using True a Cons.prems by (subst walk.simps) (simp add: fwd_valid deref_valid key_of_def)
    also have "\<dots> = Some (last (a # takeWhile (\<lambda>a. key_of ns a < k) as))"
      by (rule Cons.IH[OF a(4) a(2) a(3)])
    finally show ?thesis using True by simp
  next
    case False
    then show ?thesis
      using a Cons.prems by (subst walk.simps) (simp add: fwd_valid deref_valid key_of_def)
  qed
qed

lemma filter_last_split:
  "\<exists>P1 P2. P = P1 @ P2 \<and> filter R P2 = [] \<and> (P1 = [] \<or> R (last P1))"
proof (induction P rule: rev_induct)
  case Nil
  then show ?case by simp
next
  case (snoc x xs)
  then obtain A B where ab: "xs = A @ B" "filter R B = []" "A = [] \<or> R (last A)"
    by blast
  show ?case
  proof (cases "R x")
    case True
    then have "xs @ [x] = (xs @ [x]) @ [] \<and> filter R [] = []
       \<and> (xs @ [x] = [] \<or> R (last (xs @ [x])))"
      by simp
    then show ?thesis by blast
  next
    case False
    with ab have "xs @ [x] = A @ (B @ [x]) \<and> filter R (B @ [x]) = [] \<and> (A = [] \<or> R (last A))"
      by simp
    then show ?thesis by blast
  qed
qed

lemma sorted_dropWhile_ge:
  fixes f :: "'a \<Rightarrow> 'b::linorder"
  assumes "sorted_wrt (<) (map f l)"
  shows "\<forall>a\<in>set (dropWhile (\<lambda>a. f a < k) l). \<not> f a < k"
  using assms
proof (induction l)
  case Nil
  then show ?case by simp
next
  case (Cons x xs)
  from Cons.prems have srt: "sorted_wrt (<) (map f xs)" and gt: "\<forall>a\<in>set xs. f x < f a"
    by simp_all
  note IH = Cons.IH[OF srt]
  show ?case
  proof (cases "f x < k")
    case True
    then have "dropWhile (\<lambda>a. f a < k) (x # xs) = dropWhile (\<lambda>a. f a < k) xs" by simp
    with IH show ?thesis by (simp only:)
  next
    case False
    have "\<not> f a < k" if "a \<in> set xs" for a
    proof
      assume "f a < k"
      moreover from that gt have "f x < f a" by blast
      ultimately have "f x < k" by (rule less_trans[rotated])
      with False show False by simp
    qed
    then have "\<forall>a\<in>set (x # xs). \<not> f a < k" using False by simp
    moreover from False have "dropWhile (\<lambda>a. f a < k) (x # xs) = x # xs" by simp
    ultimately show ?thesis by (simp only:)
  qed
qed

lemma takeWhile_append_all:
  "\<forall>a\<in>set xs. p a \<Longrightarrow> \<forall>a\<in>set ys. \<not> p a \<Longrightarrow> takeWhile p (xs @ ys) = xs"
proof (induction xs)
  case Nil
  then show ?case by (cases ys) simp_all
next
  case (Cons x xs)
  then show ?case by simp
qed

lemma sl_invD:
  assumes "sl_inv s l0"
  shows "head s = 0" and "nodes s \<noteq> []" and "height (nodes s) 0 = maxLevel"
    and "1 \<le> level s" and "level s \<le> maxLevel"
    and "distinct l0" and "0 \<notin> set l0"
    and "\<And>a. a \<in> set l0 \<Longrightarrow> a < length (nodes s)"
    and "\<And>a. a \<in> set l0 \<Longrightarrow> 1 \<le> height (nodes s) a"
    and "\<And>a. a \<in> set l0 \<Longrightarrow> height (nodes s) a \<le> level s"
    and "\<And>a. a < length (nodes s) \<Longrightarrow> height (nodes s) a \<le> maxLevel"
    and "sorted_wrt (<) (map (key_of (nodes s)) l0)"
    and "\<And>i. i < maxLevel \<Longrightarrow>
           seg (nodes s) i (next_at (nodes s) i 0) (filter (\<lambda>a. i < height (nodes s) a) l0) None"
proof -
  from assms have c: "head s = 0 \<and> nodes s \<noteq> [] \<and> height (nodes s) 0 = maxLevel
     \<and> 1 \<le> level s \<and> level s \<le> maxLevel
     \<and> distinct l0 \<and> 0 \<notin> set l0
     \<and> (\<forall>a\<in>set l0. a < length (nodes s) \<and> 1 \<le> height (nodes s) a
           \<and> height (nodes s) a \<le> level s)
     \<and> (\<forall>a<length (nodes s). height (nodes s) a \<le> maxLevel)
     \<and> sorted_wrt (<) (map (key_of (nodes s)) l0)
     \<and> (\<forall>i<maxLevel. level_seq s i (filter (\<lambda>a. i < height (nodes s) a) l0))"
    unfolding sl_inv_def .
  from c show "head s = 0" by simp
  from c show "nodes s \<noteq> []" by simp
  from c show "height (nodes s) 0 = maxLevel" by simp
  from c show "1 \<le> level s" by simp
  from c show "level s \<le> maxLevel" by simp
  from c show "distinct l0" by simp
  from c show "0 \<notin> set l0" by simp
  from c show "\<And>a. a \<in> set l0 \<Longrightarrow> a < length (nodes s)" by simp
  from c show "\<And>a. a \<in> set l0 \<Longrightarrow> 1 \<le> height (nodes s) a" by simp
  from c show "\<And>a. a \<in> set l0 \<Longrightarrow> height (nodes s) a \<le> level s" by simp
  from c show "\<And>a. a < length (nodes s) \<Longrightarrow> height (nodes s) a \<le> maxLevel" by simp
  from c show "sorted_wrt (<) (map (key_of (nodes s)) l0)" by simp
  from c have h: "head s = 0" and l: "\<forall>i<maxLevel. level_seq s i (filter (\<lambda>a. i < height (nodes s) a) l0)"
    by simp_all
  show "\<And>i. i < maxLevel \<Longrightarrow>
           seg (nodes s) i (next_at (nodes s) i 0) (filter (\<lambda>a. i < height (nodes s) a) l0) None"
    using l h by (simp add: level_seq_def)
qed

lemma walk_pred:
  assumes inv: "sl_inv s l0" and j: "j < maxLevel"
  shows "walk (nodes s) k j (pred_at (nodes s) l0 k (Suc j)) = Some (pred_at (nodes s) l0 k j)"
proof -
  define ns where "ns = nodes s"
  define P where "P = takeWhile (\<lambda>a. key_of ns a < k) l0"
  define Q where "Q = dropWhile (\<lambda>a. key_of ns a < k) l0"
  define F where "F = (\<lambda>i xs. filter (\<lambda>a. i < height ns a) xs)"
  have l0: "l0 = P @ Q" by (simp add: P_def Q_def)
  have Pk: "\<forall>a\<in>set P. key_of ns a < k"
    unfolding P_def by (auto dest: set_takeWhileD)
  note I = sl_invD[OF inv, folded ns_def]
  have Qk: "\<forall>a\<in>set Q. \<not> key_of ns a < k"
    unfolding Q_def by (rule sorted_dropWhile_ge[OF I(12)])
  from I(13)[OF j] have "seg ns j (next_at ns j 0) (F j l0) None"
    by (simp add: F_def)
  then have chain: "seg ns j (next_at ns j 0) (F j P @ F j Q) None"
    by (simp add: l0 F_def)
  from I(2,3) j have head: "0 < length ns" "j < height ns 0"
    by simp_all
  obtain P1 P2 where sp: "P = P1 @ P2" "F (Suc j) P2 = []"
    "P1 = [] \<or> Suc j < height ns (last P1)"
    unfolding F_def using filter_last_split[of P "\<lambda>a. Suc j < height ns a"] by blast
  have tw: "takeWhile (\<lambda>a. key_of ns a < k) (F j P2 @ F j Q) = F j P2"
  proof (rule takeWhile_append_all)
    show "\<forall>a\<in>set (F j P2). key_of ns a < k" using Pk sp(1) by (simp add: F_def)
    show "\<forall>a\<in>set (F j Q). \<not> key_of ns a < k" using Qk by (simp add: F_def)
  qed
  have pS: "pred_at ns l0 k (Suc j) = last (0 # F (Suc j) P)"
    and pj: "pred_at ns l0 k j = last (0 # F j P)"
    by (simp_all add: pred_at_def P_def F_def)
  show ?thesis
  proof (cases "P1 = []")
    case True
    with sp have P2: "P = P2" by simp
    with sp(2) have x: "pred_at ns l0 k (Suc j) = 0" by (simp add: pS)
    have "walk ns k j 0 = Some (last (0 # takeWhile (\<lambda>a. key_of ns a < k) (F j P @ F j Q)))"
      by (rule walk_seg[OF chain head])
    then have "walk ns k j 0 = Some (last (0 # F j P2))"
      by (simp only: P2 tw)
    then show ?thesis
      by (simp add: x pj P2 ns_def[symmetric])
  next
    case False
    define x where "x = last P1"
    from False sp(3) have hx: "Suc j < height ns x" by (simp add: x_def)
    from False have P1: "P1 = butlast P1 @ [x]" by (simp add: x_def)
    have "F (Suc j) P1 = F (Suc j) (butlast P1) @ [x]"
      using hx by (subst P1) (simp add: F_def)
    then have "F (Suc j) P = F (Suc j) (butlast P1) @ [x]"
      using sp(2) by (simp add: sp(1) F_def)
    then have xS: "pred_at ns l0 k (Suc j) = x"
      by (simp add: pS)
    have FP1: "F j P1 = F j (butlast P1) @ [x]"
      using hx by (subst P1) (simp add: F_def)
    have FP: "F j P = F j (butlast P1) @ [x] @ F j P2"
      using FP1 by (simp add: sp(1) F_def)
    from chain have "seg ns j (next_at ns j 0) (F j (butlast P1) @ (x # (F j P2 @ F j Q))) None"
      by (simp add: FP)
    then obtain r where "seg ns j r (x # (F j P2 @ F j Q)) None"
      unfolding seg_append by blast
    then have xv: "x < length ns" "j < height ns x"
      and rest: "seg ns j (next_at ns j x) (F j P2 @ F j Q) None"
      by simp_all
    have "walk ns k j x = Some (last (x # takeWhile (\<lambda>a. key_of ns a < k) (F j P2 @ F j Q)))"
      by (rule walk_seg[OF rest xv])
    then have "walk ns k j x = Some (last (x # F j P2))" by (simp only: tw)
    moreover have "pred_at ns l0 k j = last (x # F j P2)"
      by (simp add: pj FP)
    ultimately show ?thesis by (simp add: xS ns_def[symmetric])
  qed
qed

lemma pred_at_top:
  assumes inv: "sl_inv s l0" and "level s \<le> i"
  shows "pred_at (nodes s) l0 k i = 0"
proof -
  have "filter (\<lambda>a. i < height (nodes s) a) (takeWhile (\<lambda>a. key_of (nodes s) a < k) l0) = []"
  proof (rule filter_False, rule ballI)
    fix a assume "a \<in> set (takeWhile (\<lambda>a. key_of (nodes s) a < k) l0)"
    then have "a \<in> set l0" by (auto dest: set_takeWhileD)
    from sl_invD(10)[OF inv this] assms(2) show "\<not> i < height (nodes s) a" by simp
  qed
  then show ?thesis by (simp add: pred_at_def)
qed

lemma descend_update_pred:
  assumes inv: "sl_inv s l0"
  shows "j \<le> maxLevel \<Longrightarrow> length u = maxLevel \<Longrightarrow>
    \<exists>u'. descend_update (nodes s) k j (pred_at (nodes s) l0 k j) u
            = Some (pred_at (nodes s) l0 k 0, u')
       \<and> length u' = maxLevel
       \<and> (\<forall>i<maxLevel. u' ! i = (if i < j then Some (pred_at (nodes s) l0 k i) else u ! i))"
proof (induction j arbitrary: u)
  case 0
  then show ?case by simp
next
  case (Suc j)
  from Suc.prems have j: "j < maxLevel" by simp
  define y where "y = pred_at (nodes s) l0 k j"
  have w: "walk (nodes s) k j (pred_at (nodes s) l0 k (Suc j)) = Some y"
    unfolding y_def by (rule walk_pred[OF inv j])
  from Suc.prems j have "j \<le> maxLevel" "length (u[j := Some y]) = maxLevel" by simp_all
  from Suc.IH[OF this] obtain u' where u': "descend_update (nodes s) k j y (u[j := Some y])
        = Some (pred_at (nodes s) l0 k 0, u')" "length u' = maxLevel"
    "\<forall>i<maxLevel. u' ! i = (if i < j then Some (pred_at (nodes s) l0 k i) else (u[j := Some y]) ! i)"
    unfolding y_def by blast
  have "\<forall>i<maxLevel. u' ! i = (if i < Suc j then Some (pred_at (nodes s) l0 k i) else u ! i)"
  proof (intro allI impI)
    fix i assume i: "i < maxLevel"
    with u'(3) have e: "u' ! i = (if i < j then Some (pred_at (nodes s) l0 k i) else (u[j := Some y]) ! i)"
      by simp
    consider "i < j" | "i = j" | "j < i" by linarith
    then show "u' ! i = (if i < Suc j then Some (pred_at (nodes s) l0 k i) else u ! i)"
    proof cases
      case 1 with e show ?thesis by simp
    next
      case 2 with e Suc.prems j show ?thesis by (simp add: y_def)
    next
      case 3 with e show ?thesis by simp
    qed
  qed
  with u'(1,2) w show ?case by simp
qed

lemma descend_pred:
  assumes inv: "sl_inv s l0"
  shows "j \<le> maxLevel \<Longrightarrow>
    descend (nodes s) k j (pred_at (nodes s) l0 k j) = Some (pred_at (nodes s) l0 k 0)"
proof (induction j)
  case 0
  then show ?case by simp
next
  case (Suc j)
  from Suc.prems have j: "j < maxLevel" by simp
  have w: "walk (nodes s) k j (pred_at (nodes s) l0 k (Suc j)) = Some (pred_at (nodes s) l0 k j)"
    by (rule walk_pred[OF inv j])
  from Suc.IH j w show ?case by simp
qed

text \<open>The predecessor on level i, the chain before it and the chain after it.\<close>

lemma pred_chain:
  fixes k :: key
  assumes inv: "sl_inv s l0" and i: "i < maxLevel"
  defines "ns \<equiv> nodes s"
  defines "P \<equiv> takeWhile (\<lambda>a. key_of ns a < k) l0"
  defines "Q \<equiv> dropWhile (\<lambda>a. key_of ns a < k) l0"
  defines "p \<equiv> pred_at ns l0 k i"
  shows "p < length ns" and "i < height ns p"
    and "p = 0 \<or> p \<in> set P"
    and "seg ns i (next_at ns i 0) (filter (\<lambda>a. i < height ns a) P) (next_at ns i p)"
    and "seg ns i (next_at ns i p) (filter (\<lambda>a. i < height ns a) Q) None"
proof -
  note I = sl_invD[OF inv, folded ns_def]
  define FP where "FP = filter (\<lambda>a. i < height ns a) P"
  define FQ where "FQ = filter (\<lambda>a. i < height ns a) Q"
  have p: "p = last (0 # FP)" by (simp add: p_def pred_at_def P_def FP_def)
  have "l0 = P @ Q" by (simp add: P_def Q_def)
  then have "filter (\<lambda>a. i < height ns a) l0 = FP @ FQ" by (simp add: FP_def FQ_def)
  with I(13)[OF i] have "seg ns i (next_at ns i 0) (FP @ FQ) None" by simp
  then obtain r where r: "seg ns i (next_at ns i 0) FP r" "seg ns i r FQ None"
    unfolding seg_append by blast
  from seg_last[OF r(1)] have "r = next_at ns i p" by (simp only: p)
  with r show "seg ns i (next_at ns i 0) (filter (\<lambda>a. i < height ns a) P) (next_at ns i p)"
    "seg ns i (next_at ns i p) (filter (\<lambda>a. i < height ns a) Q) None"
    by (simp_all add: FP_def FQ_def)
  show "p = 0 \<or> p \<in> set P"
  proof (cases "FP = []")
    case True
    then show ?thesis by (simp add: p)
  next
    case False
    then have "last FP \<in> set FP" by (rule last_in_set)
    then have "last FP \<in> set P" by (simp add: FP_def)
    with False show ?thesis by (simp add: p)
  qed
  show "p < length ns" "i < height ns p"
  proof -
    have "p < length ns \<and> i < height ns p"
    proof (cases "FP = []")
      case True
      with I(2,3) i show ?thesis by (simp add: p)
    next
      case False
      then have "last FP \<in> set FP" by (rule last_in_set)
      with seg_valid[OF r(1)] have "last FP < length ns \<and> i < height ns (last FP)" by blast
      with False show ?thesis by (simp add: p)
    qed
    then show "p < length ns" "i < height ns p" by simp_all
  qed
qed

section \<open>Skip list: search, and the pieces of Upsert\<close>

lemma key_split:
  fixes k :: key
  assumes inv: "sl_inv s l0"
  defines "ns \<equiv> nodes s"
  defines "P \<equiv> takeWhile (\<lambda>a. key_of ns a < k) l0"
  defines "Q \<equiv> dropWhile (\<lambda>a. key_of ns a < k) l0"
  shows "l0 = P @ Q"
    and "\<forall>a\<in>set P. key_of ns a < k"
    and "\<forall>a\<in>set Q. \<not> key_of ns a < k"
    and "filter (\<lambda>a. 0 < height ns a) P = P"
    and "filter (\<lambda>a. 0 < height ns a) Q = Q"
    and "\<And>a Q'. Q = a # Q' \<Longrightarrow> \<forall>b\<in>set Q'. key_of ns a < key_of ns b"
proof -
  note I = sl_invD[OF inv, folded ns_def]
  show l0: "l0 = P @ Q" by (simp add: P_def Q_def)
  show "\<forall>a\<in>set P. key_of ns a < k"
    unfolding P_def by (auto dest: set_takeWhileD)
  show "\<forall>a\<in>set Q. \<not> key_of ns a < k"
    unfolding Q_def by (rule sorted_dropWhile_ge[OF I(12)])
  have h: "0 < height ns a" if "a \<in> set l0" for a
    using I(9)[OF that] by simp
  show "filter (\<lambda>a. 0 < height ns a) P = P"
    by (rule filter_True) (simp add: l0 h)
  show "filter (\<lambda>a. 0 < height ns a) Q = Q"
    by (rule filter_True) (simp add: l0 h)
  show "\<forall>b\<in>set Q'. key_of ns a < key_of ns b" if "Q = a # Q'" for a Q'
  proof -
    from I(12) have "sorted_wrt (<) (map (key_of ns) (P @ a # Q'))"
      using l0 that by simp
    then have "sorted_wrt (<) (map (key_of ns) (a # Q'))"
      by (simp add: sorted_wrt_append)
    then show ?thesis by simp
  qed
qed

lemma Search_inv:
  assumes inv: "sl_inv s l0"
  shows "Search s k =
     Some (case filter (\<lambda>a. key_of (nodes s) a = k) l0 of
             [] \<Rightarrow> (zeroEntry, False)
           | a # _ \<Rightarrow> (entry (nodes s ! a), True))"
proof -
  define ns where "ns = nodes s"
  define P where "P = takeWhile (\<lambda>a. key_of ns a < k) l0"
  define Q where "Q = dropWhile (\<lambda>a. key_of ns a < k) l0"
  define p where "p = pred_at ns l0 k 0"
  note I = sl_invD[OF inv, folded ns_def]
  note S = key_split[OF inv, of k, folded ns_def, folded P_def Q_def]
  have "0 < maxLevel" by (simp add: maxLevel_def)
  note C = pred_chain[OF inv this, of k, folded ns_def, folded P_def Q_def p_def]
  have top: "pred_at ns l0 k (level s) = 0"
    unfolding ns_def by (rule pred_at_top[OF inv]) simp
  have d: "descend ns k (level s) 0 = Some p"
    using descend_pred[OF inv I(5), of k] by (simp add: top ns_def[symmetric] p_def)
  have f: "fwd ns p 0 = Some (next_at ns 0 p)"
    by (rule fwd_valid[OF C(1,2)])
  from C(5) have q: "seg ns 0 (next_at ns 0 p) Q None" by (simp only: S(5))
  have Pne: "filter (\<lambda>a. key_of ns a = k) P = []"
  proof (rule filter_False, rule ballI)
    fix a assume "a \<in> set P"
    with S(2) have "key_of ns a < k" by simp
    then show "\<not> key_of ns a = k" by simp
  qed
  have S0: "Search s k =
     (case next_at ns 0 p of
        None \<Rightarrow> Some (zeroEntry, False)
      | Some y \<Rightarrow> (case deref ns y of None \<Rightarrow> None
                   | Some n \<Rightarrow> if key n = k then Some (entry n, True) else Some (zeroEntry, False)))"
    unfolding Search_def using d f I(1) unfolding ns_def by simp
  show ?thesis
  proof (cases Q)
    case Nil
    with q have "next_at ns 0 p = None" by simp
    moreover from Nil Pne have "filter (\<lambda>a. key_of ns a = k) l0 = []"
      by (subst S(1)) simp
    ultimately show ?thesis by (simp add: S0 ns_def[symmetric])
  next
    case (Cons a Q')
    with q have a: "next_at ns 0 p = Some a" "a < length ns" by simp_all
    show ?thesis
    proof (cases "key_of ns a = k")
      case True
      from Cons Pne True have "filter (\<lambda>a. key_of ns a = k) l0
          = a # filter (\<lambda>a. key_of ns a = k) Q'"
        by (subst S(1)) simp
      then show ?thesis
        using True a by (simp add: S0 ns_def[symmetric] deref_valid key_of_def)
    next
      case False
      from S(3) Cons have nk: "\<not> key_of ns a < k" by simp
      with False have ka: "k < key_of ns a" by simp
      have "filter (\<lambda>a. key_of ns a = k) Q' = []"
      proof (rule filter_False, rule ballI)
        fix b assume "b \<in> set Q'"
        with S(6)[OF Cons] have "key_of ns a < key_of ns b" by simp
        with ka have "k < key_of ns b" by (rule less_trans)
        then show "\<not> key_of ns b = k" by simp
      qed
      with Cons Pne False have "filter (\<lambda>a. key_of ns a = k) l0 = []"
        by (subst S(1)) simp
      then show ?thesis
        using False a by (simp add: S0 ns_def[symmetric] deref_valid key_of_def)
    qed
  qed
qed

lemma randomLevel_loop_bounds:
  "lvl \<le> maxLevel \<Longrightarrow>
   lvl \<le> fst (randomLevel_loop lvl r) \<and> fst (randomLevel_loop lvl r) \<le> maxLevel"
proof (induction lvl r rule: randomLevel_loop.induct)
  case (1 lvl r)
  show ?case
  proof (cases "lvl < maxLevel \<and> r 0 mod 2 = 0")
    case True
    then have e: "randomLevel_loop lvl r = randomLevel_loop (lvl + 1) (\<lambda>i. r (Suc i))"
      by (subst randomLevel_loop.simps) simp
    from True have "lvl + 1 \<le> maxLevel" by simp
    with "1.IH" True have "lvl + 1 \<le> fst (randomLevel_loop (lvl + 1) (\<lambda>i. r (Suc i)))
        \<and> fst (randomLevel_loop (lvl + 1) (\<lambda>i. r (Suc i))) \<le> maxLevel"
      by simp
    then show ?thesis by (simp add: e)
  next
    case False
    then have "fst (randomLevel_loop lvl r) = lvl"
      by (subst randomLevel_loop.simps) auto
    with "1.prems" show ?thesis by simp
  qed
qed

lemma randomLevel_bounds:
  "1 \<le> fst (randomLevel r) \<and> fst (randomLevel r) \<le> maxLevel"
  unfolding randomLevel_def
  by (rule randomLevel_loop_bounds) (simp add: maxLevel_def)

lemma raise_update_props:
  "length (raise_update h lo hi u) = length u
   \<and> (\<forall>i<length u. raise_update h lo hi u ! i = (if lo \<le> i \<and> i < hi then Some h else u ! i))"
proof (induction hi)
  case 0
  then show ?case by (simp add: raise_update_def)
next
  case (Suc hi)
  define v where "v = raise_update h lo hi u"
  from Suc have v: "length v = length u"
    "\<forall>i<length u. v ! i = (if lo \<le> i \<and> i < hi then Some h else u ! i)"
    by (simp_all add: v_def)
  show ?case
  proof (cases "lo \<le> hi")
    case True
    then have "[lo..<Suc hi] = [lo..<hi] @ [hi]" by simp
    then have r: "raise_update h lo (Suc hi) u = v[hi := Some h]"
      by (simp add: raise_update_def v_def)
    have "v[hi := Some h] ! i = (if lo \<le> i \<and> i < Suc hi then Some h else u ! i)"
      if "i < length u" for i
    proof (cases "i = hi")
      case True
      with that v(1) \<open>lo \<le> hi\<close> show ?thesis by simp
    next
      case False
      then have "v[hi := Some h] ! i = v ! i" by simp
      with v(2) that False show ?thesis by auto
    qed
    with v(1) show ?thesis by (simp add: r)
  next
    case False
    then have "raise_update h lo (Suc hi) u = u" "raise_update h lo hi u = u"
      by (simp_all add: raise_update_def)
    with False show ?thesis by auto
  qed
qed

lemma set_fwd_props:
  assumes "x < length ns"
  shows "length (set_fwd x i y ns) = length ns"
    and "\<And>a. key (set_fwd x i y ns ! a) = key (ns ! a)"
    and "\<And>a. entry (set_fwd x i y ns ! a) = entry (ns ! a)"
    and "\<And>a. height (set_fwd x i y ns) a = height ns a"
    and "\<And>a j. a < length ns \<Longrightarrow> j < height ns a \<Longrightarrow>
           next_at (set_fwd x i y ns) j a = (if a = x \<and> j = i then y else next_at ns j a)"
  using assms
  by (auto simp: set_fwd_def height_def next_at_def nth_list_update)

lemma link_result:
  assumes "distinct lv" and "new < length ns"
      and "\<forall>i\<in>set lv. i < length u \<and> i < height ns new
             \<and> (\<exists>p. u ! i = Some p \<and> p < length ns \<and> p \<noteq> new \<and> i < height ns p)"
  shows "\<exists>ns'. link lv u new ns = Some ns' \<and> length ns' = length ns
     \<and> (\<forall>a. key (ns' ! a) = key (ns ! a) \<and> entry (ns' ! a) = entry (ns ! a)
             \<and> height ns' a = height ns a)
     \<and> (\<forall>a<length ns. \<forall>i<height ns a.
           next_at ns' i a =
             (if i \<in> set lv \<and> u ! i = Some a then Some new
              else if i \<in> set lv \<and> a = new then next_at ns i (the (u ! i))
              else next_at ns i a))"
  using assms
proof (induction lv arbitrary: ns)
  case Nil
  then show ?case by simp
next
  case (Cons i lv)
  from Cons.prems(3) obtain p where p: "i < length u" "i < height ns new" "u ! i = Some p"
    "p < length ns" "p \<noteq> new" "i < height ns p"
    by auto
  define nxt where "nxt = next_at ns i p"
  define ns0 where "ns0 = set_fwd new i nxt ns"
  define ns1 where "ns1 = set_fwd p i (Some new) ns0"
  note A = set_fwd_props[OF Cons.prems(2), where i=i and y=nxt, folded ns0_def]
  from p(4) A(1) have "p < length ns0" by simp
  note B = set_fwd_props[OF this, where i=i and y="Some new", folded ns1_def]
  have len1: "length ns1 = length ns" by (simp add: A(1) B(1))
  have same1: "key (ns1 ! a) = key (ns ! a) \<and> entry (ns1 ! a) = entry (ns ! a)
      \<and> height ns1 a = height ns a" for a
    by (simp add: A(2,3,4) B(2,3,4))
  have nx1: "next_at ns1 j a =
      (if a = p \<and> j = i then Some new else if a = new \<and> j = i then nxt else next_at ns j a)"
    if "a < length ns" "j < height ns a" for a j
  proof -
    from that A(1,4) have "a < length ns0" "j < height ns0 a" by simp_all
    from B(5)[OF this] have "next_at ns1 j a
        = (if a = p \<and> j = i then Some new else next_at ns0 j a)" .
    also from A(5)[OF that] have "next_at ns0 j a
        = (if a = new \<and> j = i then nxt else next_at ns j a)" .
    finally show ?thesis by (simp cong: if_cong)
  qed
  have step: "link (i # lv) u new ns = link lv u new ns1"
    using p Cons.prems(2)
    by (simp add: fwd_valid nxt_def ns0_def ns1_def height_def)
  have pre: "\<forall>j\<in>set lv. j < length u \<and> j < height ns1 new
             \<and> (\<exists>q. u ! j = Some q \<and> q < length ns1 \<and> q \<noteq> new \<and> j < height ns1 q)"
    using Cons.prems(3) by (simp add: same1 len1)
  from Cons.prems(1) have dl: "distinct lv" and il: "i \<notin> set lv" by simp_all
  from Cons.prems(2) have "new < length ns1" by (simp add: len1)
  from Cons.IH[OF dl this pre] obtain ns' where ns': "link lv u new ns1 = Some ns'"
    "length ns' = length ns1"
    "\<forall>a. key (ns' ! a) = key (ns1 ! a) \<and> entry (ns' ! a) = entry (ns1 ! a)
             \<and> height ns' a = height ns1 a"
    "\<forall>a<length ns1. \<forall>j<height ns1 a.
           next_at ns' j a =
             (if j \<in> set lv \<and> u ! j = Some a then Some new
              else if j \<in> set lv \<and> a = new then next_at ns1 j (the (u ! j))
              else next_at ns1 j a)"
    by blast
  have "next_at ns' j a =
             (if j \<in> set (i # lv) \<and> u ! j = Some a then Some new
              else if j \<in> set (i # lv) \<and> a = new then next_at ns j (the (u ! j))
              else next_at ns j a)"
    if a: "a < length ns" and j: "j < height ns a" for a j
  proof -
    from ns'(4) a j have e: "next_at ns' j a =
             (if j \<in> set lv \<and> u ! j = Some a then Some new
              else if j \<in> set lv \<and> a = new then next_at ns1 j (the (u ! j))
              else next_at ns1 j a)"
      by (simp add: len1 same1)
    show ?thesis
    proof (cases "j \<in> set lv")
      case True
      with il have ji: "j \<noteq> i" by auto
      from True Cons.prems(3) obtain q where q: "u ! j = Some q" "q < length ns" "j < height ns q"
        by auto
      from nx1[OF q(2,3)] ji have "next_at ns1 j q = next_at ns j q" by simp
      moreover from nx1[OF a j] ji have "next_at ns1 j a = next_at ns j a" by simp
      ultimately show ?thesis using e True q(1) by simp
    next
      case False
      with e have "next_at ns' j a = next_at ns1 j a" by simp
      also have "\<dots> = (if a = p \<and> j = i then Some new
          else if a = new \<and> j = i then nxt else next_at ns j a)"
        by (rule nx1[OF a j])
      finally show ?thesis using False p(3,5) by (auto simp: nxt_def)
    qed
  qed
  with ns'(1,2,3) step show ?case by (simp add: len1 same1)
qed

lemma Upsert_front:
  fixes k :: key
  assumes inv: "sl_inv s l0"
  defines "ns \<equiv> nodes s"
  defines "Q \<equiv> dropWhile (\<lambda>a. key_of ns a < k) l0"
  defines "p \<equiv> pred_at ns l0 k 0"
  shows "\<exists>u. descend_update ns k (level s) (head s) (replicate maxLevel None) = Some (p, u)
           \<and> length u = maxLevel
           \<and> (\<forall>i<level s. u ! i = Some (pred_at ns l0 k i))"
    and "fwd ns p 0 = Some (case Q of [] \<Rightarrow> None | a # _ \<Rightarrow> Some a)"
    and "\<And>a Q'. Q = a # Q' \<Longrightarrow> a < length ns"
proof -
  note I = sl_invD[OF inv, folded ns_def]
  note S = key_split[OF inv, of k, folded ns_def, folded Q_def]
  have "0 < maxLevel" by (simp add: maxLevel_def)
  note C = pred_chain[OF inv this, of k, folded ns_def, folded Q_def p_def]
  have top: "pred_at ns l0 k (level s) = 0"
    unfolding ns_def by (rule pred_at_top[OF inv]) simp
  have "length (replicate maxLevel (None :: ref option)) = maxLevel" by simp
  from descend_update_pred[OF inv I(5) this, of k, folded ns_def, folded p_def]
  obtain u where u: "descend_update ns k (level s) 0 (replicate maxLevel None) = Some (p, u)"
    "length u = maxLevel"
    "\<forall>i<maxLevel. u ! i = (if i < level s then Some (pred_at ns l0 k i)
                            else replicate maxLevel None ! i)"
    unfolding top by blast
  have "\<forall>i<level s. u ! i = Some (pred_at ns l0 k i)"
    using u(3) I(5) by auto
  with u(1,2) I(1)
  show "\<exists>u. descend_update ns k (level s) (head s) (replicate maxLevel None) = Some (p, u)
           \<and> length u = maxLevel
           \<and> (\<forall>i<level s. u ! i = Some (pred_at ns l0 k i))"
    by auto
  from C(5) have q: "seg ns 0 (next_at ns 0 p) Q None" by (simp only: S(5))
  then have "next_at ns 0 p = (case Q of [] \<Rightarrow> None | a # _ \<Rightarrow> Some a)"
    by (cases Q) simp_all
  with fwd_valid[OF C(1,2)]
  show "fwd ns p 0 = Some (case Q of [] \<Rightarrow> None | a # _ \<Rightarrow> Some a)" by simp
  show "a < length ns" if "Q = a # Q'" for a Q'
    using q that by simp
qed

lemma set_entry_props:
  assumes "x < length ns"
  shows "length (set_entry x e ns) = length ns"
    and "\<And>a. key_of (set_entry x e ns) a = key_of ns a"
    and "\<And>a. height (set_entry x e ns) a = height ns a"
    and "\<And>a j. next_at (set_entry x e ns) j a = next_at ns j a"
    and "entry (set_entry x e ns ! x) = e"
    and "map forward (set_entry x e ns) = map forward ns"
    and "map key (set_entry x e ns) = map key ns"
    and "\<And>a. a \<noteq> x \<Longrightarrow> set_entry x e ns ! a = ns ! a"
proof -
  show len: "length (set_entry x e ns) = length ns" by (simp add: set_entry_def)
  have nth: "set_entry x e ns ! a = (if a = x then (ns ! x)\<lparr>entry := e\<rparr> else ns ! a)" for a
    using assms by (simp add: set_entry_def nth_list_update)
  show "key_of (set_entry x e ns) a = key_of ns a" for a
    by (simp add: key_of_def nth)
  show "height (set_entry x e ns) a = height ns a" for a
    by (simp add: height_def nth)
  show "next_at (set_entry x e ns) j a = next_at ns j a" for a j
    by (simp add: next_at_def nth)
  show "entry (set_entry x e ns ! x) = e" by (simp add: nth)
  show "map forward (set_entry x e ns) = map forward ns"
    by (rule nth_equalityI) (simp_all add: len nth)
  show "map key (set_entry x e ns) = map key ns"
    by (rule nth_equalityI) (simp_all add: len nth)
  show "set_entry x e ns ! a = ns ! a" if "a \<noteq> x" for a
    using that by (simp add: nth)
qed

lemma sl_inv_cong:
  assumes inv: "sl_inv s l0"
      and "head s' = head s" and "level s' = level s"
      and "length (nodes s') = length (nodes s)"
      and "\<And>a. key_of (nodes s') a = key_of (nodes s) a"
      and "\<And>a. height (nodes s') a = height (nodes s) a"
      and "\<And>a j. next_at (nodes s') j a = next_at (nodes s) j a"
  shows "sl_inv s' l0"
proof -
  note I = sl_invD[OF inv]
  have kf: "key_of (nodes s') = key_of (nodes s)" using assms(5) by (rule ext)
  have hf: "height (nodes s') = height (nodes s)" using assms(6) by (rule ext)
  have sg: "level_seq s' i (filter (\<lambda>a. i < height (nodes s') a) l0)" if "i < maxLevel" for i
  proof -
    have "seg (nodes s') i (next_at (nodes s) i 0) (filter (\<lambda>a. i < height (nodes s) a) l0) None"
      by (rule seg_frame[OF I(13)[OF that]]) (simp add: assms(4,6,7) I(8))
    then show ?thesis
      by (simp add: level_seq_def assms(2,7) I(1) hf)
  qed
  from I(2) assms(4) have ne: "nodes s' \<noteq> []" by auto
  show ?thesis
    unfolding sl_inv_def
    using I(1,3,4,5,6,7,8,9,10,11,12) ne sg
    by (simp add: assms(2,3,4) kf hf)
qed

section \<open>Skip list: Upsert keeps the invariant\<close>

lemma Upsert_overwrite:
  fixes k :: key
  assumes inv: "sl_inv s l0"
      and Q: "dropWhile (\<lambda>a. key_of (nodes s) a < k) l0 = a # Q'"
      and ka: "key_of (nodes s) a = k"
  shows "Upsert k e s = Some (s\<lparr>nodes := set_entry a e (nodes s)\<rparr>)"
    and "sl_inv (s\<lparr>nodes := set_entry a e (nodes s)\<rparr>) l0"
    and "a < length (nodes s)" and "a \<in> set l0"
proof -
  note F = Upsert_front[OF inv, of k]
  from F(1) obtain u where u: "descend_update (nodes s) k (level s) (head s)
      (replicate maxLevel None) = Some (pred_at (nodes s) l0 k 0, u)"
    by blast
  from F(2) Q have f: "fwd (nodes s) (pred_at (nodes s) l0 k 0) 0 = Some (Some a)" by simp
  from F(3)[OF Q] show a: "a < length (nodes s)" .
  then have d: "deref (nodes s) a = Some (nodes s ! a)" by (rule deref_valid)
  from ka have kk: "key (nodes s ! a) = k" by (simp add: key_of_def)
  show "Upsert k e s = Some (s\<lparr>nodes := set_entry a e (nodes s)\<rparr>)"
    unfolding Upsert_def using u f d kk by simp
  note E = set_entry_props[OF a, where e=e]
  show "sl_inv (s\<lparr>nodes := set_entry a e (nodes s)\<rparr>) l0"
    by (rule sl_inv_cong[OF inv]) (simp_all add: E)
  have "a \<in> set (dropWhile (\<lambda>a. key_of (nodes s) a < k) l0)" by (simp add: Q)
  then show "a \<in> set l0" by (rule set_dropWhileD)
qed

lemma Upsert_insert:
  fixes k :: key
  assumes inv: "sl_inv s l0"
  defines "ns \<equiv> nodes s"
  defines "P \<equiv> takeWhile (\<lambda>a. key_of ns a < k) l0"
  defines "Q \<equiv> dropWhile (\<lambda>a. key_of ns a < k) l0"
  assumes nk: "\<forall>a\<in>set Q. key_of ns a \<noteq> k"
  shows "\<exists>s'. Upsert k e s = Some s' \<and> sl_inv s' (P @ [length ns] @ Q)
           \<and> length (nodes s') = Suc (length ns)
           \<and> key_of (nodes s') (length ns) = k \<and> entry (nodes s' ! length ns) = e"
proof -
  define lvl where "lvl = fst (randomLevel (rnd s))"
  define r where "r = snd (randomLevel (rnd s))"
  define new where "new = length ns"
  define newNode where "newNode = \<lparr>key = k, entry = e, forward = replicate lvl None\<rparr>"
  define ns0 where "ns0 = ns @ [newNode]"
  define L' where "L' = (if lvl > level s then lvl else level s)"
  define pr where "pr = pred_at ns l0 k"
  note I = sl_invD[OF inv, folded ns_def]
  note S = key_split[OF inv, of k, folded ns_def, folded P_def Q_def]
  note F = Upsert_front[OF inv, of k, folded ns_def, folded Q_def pr_def]
  from F(1) obtain u where u: "descend_update ns k (level s) (head s)
      (replicate maxLevel None) = Some (pr 0, u)" "length u = maxLevel"
      "\<forall>i<level s. u ! i = Some (pr i)"
    by blast
  define u' where "u' = (if lvl > level s then raise_update (head s) (level s) lvl u else u)"
  from randomLevel_bounds[of "rnd s"] have lv: "1 \<le> lvl" "lvl \<le> maxLevel"
    by (simp_all add: lvl_def)
  have rl: "randomLevel (rnd s) = (lvl, r)" by (simp add: lvl_def r_def)
  have u'len: "length u' = maxLevel"
    using raise_update_props[of "head s" "level s" lvl u] u(2) by (simp add: u'_def)
  have u'i: "u' ! i = Some (pr i)" if "i < lvl" for i
  proof (cases "i < level s")
    case True
    from that lv u(2) have "i < length u" by simp
    with raise_update_props[of "head s" "level s" lvl u] True
    have "raise_update (head s) (level s) lvl u ! i = u ! i" by simp
    with True u(3) show ?thesis by (simp add: u'_def)
  next
    case False
    then have ge: "level s \<le> i" by simp
    with that have gt: "lvl > level s" by simp
    from that lv u(2) have "i < length u" by simp
    with raise_update_props[of "head s" "level s" lvl u] ge that
    have "raise_update (head s) (level s) lvl u ! i = Some (head s)" by simp
    moreover have "pr i = 0"
      unfolding pr_def ns_def by (rule pred_at_top[OF inv ge])
    ultimately show ?thesis using gt I(1) by (simp add: u'_def)
  qed
  have C: "pr i < length ns" "i < height ns (pr i)" "pr i = 0 \<or> pr i \<in> set P"
      "seg ns i (next_at ns i 0) (filter (\<lambda>a. i < height ns a) P) (next_at ns i (pr i))"
      "seg ns i (next_at ns i (pr i)) (filter (\<lambda>a. i < height ns a) Q) None"
    if "i < maxLevel" for i
    using pred_chain[OF inv that, of k, folded ns_def, folded P_def Q_def pr_def] by blast+
  \<comment> \<open>the store with the new node appended\<close>
  have len0: "length ns0 = Suc (length ns)" by (simp add: ns0_def)
  have old0: "ns0 ! a = ns ! a" if "a < length ns" for a
    using that by (simp add: ns0_def nth_append)
  have new0: "ns0 ! new = newNode" by (simp add: ns0_def new_def)
  have h0: "height ns0 a = (if a = new then lvl else height ns a)" if "a \<le> length ns" for a
    using that old0[of a] new0 by (auto simp: height_def new_def newNode_def)
  have pre: "\<forall>i\<in>set [0..<lvl]. i < length u' \<and> i < height ns0 new
             \<and> (\<exists>p. u' ! i = Some p \<and> p < length ns0 \<and> p \<noteq> new \<and> i < height ns0 p)"
  proof (rule ballI)
    fix i assume "i \<in> set [0..<lvl]"
    then have i: "i < lvl" by simp
    with lv have im: "i < maxLevel" by simp
    from C(1,2)[OF im] have "pr i < length ns0" "pr i \<noteq> new" "i < height ns0 (pr i)"
      using h0[of "pr i"] by (simp_all add: len0 new_def)
    with u'i[OF i] i im u'len h0[of new] show "i < length u' \<and> i < height ns0 new
             \<and> (\<exists>p. u' ! i = Some p \<and> p < length ns0 \<and> p \<noteq> new \<and> i < height ns0 p)"
      by (simp add: new_def)
  qed
  have "new < length ns0" by (simp add: new_def len0)
  from link_result[OF _ this pre] obtain ns1 where ns1: "link [0..<lvl] u' new ns0 = Some ns1"
    "length ns1 = length ns0"
    "\<forall>a. key (ns1 ! a) = key (ns0 ! a) \<and> entry (ns1 ! a) = entry (ns0 ! a)
             \<and> height ns1 a = height ns0 a"
    "\<forall>a<length ns0. \<forall>i<height ns0 a.
           next_at ns1 i a =
             (if i \<in> set [0..<lvl] \<and> u' ! i = Some a then Some new
              else if i \<in> set [0..<lvl] \<and> a = new then next_at ns0 i (the (u' ! i))
              else next_at ns0 i a)"
    by auto
  define s' where "s' = s\<lparr>nodes := ns1, level := L', rnd := r\<rparr>"
  have up: "Upsert k e s = Some s'"
  proof (cases Q)
    case Nil
    with F(2) have f: "fwd ns (pr 0) 0 = Some None" by simp
    show ?thesis
      unfolding Upsert_def insert_node_def s'_def
      using u(1) f rl ns1(1)
      unfolding ns_def u'_def ns0_def newNode_def new_def L'_def
      by (simp add: Let_def)
  next
    case (Cons a Q')
    with F(2) have f: "fwd ns (pr 0) 0 = Some (Some a)" by simp
    from F(3)[OF Cons] have d: "deref ns a = Some (ns ! a)" by (rule deref_valid)
    from nk Cons have kk: "key (ns ! a) \<noteq> k" by (simp add: key_of_def)
    show ?thesis
      unfolding Upsert_def insert_node_def s'_def
      using u(1) f d kk rl ns1(1)
      unfolding ns_def u'_def ns0_def newNode_def new_def L'_def
      by (simp add: Let_def)
  qed
  \<comment> \<open>the store after linking\<close>
  have ns_ne: "0 < length ns" using I(2) by simp
  have old1: "key_of ns1 a = key_of ns a \<and> height ns1 a = height ns a" if "a < length ns" for a
    using ns1(3) old0[OF that] h0[of a] that by (simp add: key_of_def height_def new_def)
  have new1: "key_of ns1 new = k" "height ns1 new = lvl" "entry (ns1 ! new) = e"
    using ns1(3) new0 h0[of new] by (simp_all add: key_of_def newNode_def new_def)
  have nx_old: "next_at ns1 i a = (if i < lvl \<and> pr i = a then Some new else next_at ns i a)"
    if a: "a < length ns" and i: "i < height ns a" for a i
  proof -
    from a have a0: "a < length ns0" "a \<noteq> new" by (simp_all add: len0 new_def)
    from a i h0[of a] have i0: "i < height ns0 a" by (simp add: new_def)
    from ns1(4) a0(1) i0 have "next_at ns1 i a =
             (if i \<in> set [0..<lvl] \<and> u' ! i = Some a then Some new
              else if i \<in> set [0..<lvl] \<and> a = new then next_at ns0 i (the (u' ! i))
              else next_at ns0 i a)" by blast
    moreover have "next_at ns0 i a = next_at ns i a"
      using old0[OF a] by (simp add: next_at_def)
    ultimately show ?thesis using a0(2) u'i[of i] by auto
  qed
  have nx_new: "next_at ns1 i new = next_at ns i (pr i)" if i: "i < lvl" for i
  proof -
    from i lv have im: "i < maxLevel" by simp
    have n0: "new < length ns0" by (simp add: len0 new_def)
    from i h0[of new] have i0: "i < height ns0 new" by (simp add: new_def)
    from ns1(4) n0 i0 have "next_at ns1 i new =
             (if i \<in> set [0..<lvl] \<and> u' ! i = Some new then Some new
              else if i \<in> set [0..<lvl] \<and> new = new then next_at ns0 i (the (u' ! i))
              else next_at ns0 i new)" by blast
    moreover from C(1)[OF im] have "pr i \<noteq> new" by (simp add: new_def)
    moreover have "next_at ns0 i (pr i) = next_at ns i (pr i)"
      using old0[OF C(1)[OF im]] by (simp add: next_at_def)
    ultimately show ?thesis using u'i[OF i] i by simp
  qed
  have l0_old: "a < length ns" if "a \<in> set l0" for a using I(8)[OF that] .
  have PQ: "set P \<subseteq> set l0" "set Q \<subseteq> set l0" using S(1) by auto
  have new_notin: "new \<notin> set l0" using l0_old by (auto simp: new_def)
  have filt: "filter (\<lambda>a. i < height ns1 a) (P @ [new] @ Q)
      = filter (\<lambda>a. i < height ns a) P @ (if i < lvl then [new] else [])
        @ filter (\<lambda>a. i < height ns a) Q" for i
  proof -
    have "filter (\<lambda>a. i < height ns1 a) P = filter (\<lambda>a. i < height ns a) P"
      by (rule filter_cong) (use PQ l0_old old1 in auto)
    moreover have "filter (\<lambda>a. i < height ns1 a) Q = filter (\<lambda>a. i < height ns a) Q"
      by (rule filter_cong) (use PQ l0_old old1 in auto)
    ultimately show ?thesis by (simp add: new1)
  qed
  have chain: "seg ns1 i (next_at ns1 i 0) (filter (\<lambda>a. i < height ns1 a) (P @ [new] @ Q)) None"
    if im: "i < maxLevel" for i
  proof (cases "i < lvl")
    case True
    define FP where "FP = filter (\<lambda>a. i < height ns a) P"
    define FQ where "FQ = filter (\<lambda>a. i < height ns a) Q"
    note Ci = C[OF im, folded FP_def FQ_def]
    have pl: "pr i = last (0 # FP)"
      by (simp add: pr_def pred_at_def P_def FP_def)
    have dP: "distinct (0 # FP)"
      using I(6,7) S(1) by (auto simp: FP_def)
    have A: "seg ns1 i (next_at ns1 i 0) FP (Some new)"
    proof (rule seg_redirect[OF Ci(4) dP])
      show "\<forall>a\<in>set (0 # FP). a < length ns1 \<and> height ns1 a = height ns a
             \<and> (a \<noteq> last (0 # FP) \<longrightarrow> next_at ns1 i a = next_at ns i a)"
      proof (rule ballI)
        fix a assume "a \<in> set (0 # FP)"
        then have "a = 0 \<or> (a \<in> set l0 \<and> i < height ns a)"
          using PQ by (auto simp: FP_def)
        then have a: "a < length ns" "i < height ns a"
          using ns_ne l0_old I(3) im by auto
        from nx_old[OF a] old1[OF a(1)] a(1) show "a < length ns1 \<and> height ns1 a = height ns a
             \<and> (a \<noteq> last (0 # FP) \<longrightarrow> next_at ns1 i a = next_at ns i a)"
          by (auto simp: ns1(2) len0 pl)
      qed
      show "next_at ns1 i (last (0 # FP)) = Some new"
        using nx_old[OF Ci(1,2)] True by (simp add: pl)
    qed
    have B: "seg ns1 i (Some new) [new] (next_at ns i (pr i))"
      using nx_new[OF True] True new1(2) by (simp add: ns1(2) len0 new_def)
    have Cq: "seg ns1 i (next_at ns i (pr i)) FQ None"
    proof (rule seg_frame[OF Ci(5)], rule ballI)
      fix a assume "a \<in> set FQ"
      then have aQ: "a \<in> set Q" "i < height ns a" by (simp_all add: FQ_def)
      with PQ l0_old have a: "a < length ns" by auto
      have "pr i \<noteq> a"
      proof
        assume "pr i = a"
        with Ci(3) have "a = 0 \<or> a \<in> set P" by simp
        with aQ(1) I(6,7) S(1) show False by auto
      qed
      with nx_old[OF a aQ(2)] old1[OF a] a
      show "a < length ns1 \<and> height ns1 a = height ns a \<and> next_at ns1 i a = next_at ns i a"
        by (simp add: ns1(2) len0)
    qed
    from A B Cq have "seg ns1 i (next_at ns1 i 0) (FP @ [new] @ FQ) None"
      unfolding seg_append by blast
    with True show ?thesis unfolding filt FP_def FQ_def by simp
  next
    case False
    have e: "filter (\<lambda>a. i < height ns1 a) (P @ [new] @ Q) = filter (\<lambda>a. i < height ns a) l0"
      unfolding filt using False by (subst S(1)) simp
    have "seg ns1 i (next_at ns i 0) (filter (\<lambda>a. i < height ns a) l0) None"
    proof (rule seg_frame[OF I(13)[OF im]], rule ballI)
      fix a assume "a \<in> set (filter (\<lambda>a. i < height ns a) l0)"
      then have a: "a < length ns" "i < height ns a" using l0_old by simp_all
      from nx_old[OF a] old1[OF a(1)] a(1) False
      show "a < length ns1 \<and> height ns1 a = height ns a \<and> next_at ns1 i a = next_at ns i a"
        by (simp add: ns1(2) len0)
    qed
    moreover have "next_at ns1 i 0 = next_at ns i 0"
      using nx_old[OF ns_ne, of i] I(3) im False by simp
    ultimately show ?thesis unfolding e by simp
  qed
  \<comment> \<open>the invariant of the new list\<close>
  have c1: "head s' = 0" using I(1) by (simp add: s'_def)
  have c2: "nodes s' \<noteq> []" using ns1(2) len0 by (auto simp: s'_def)
  have c3: "height (nodes s') 0 = maxLevel" using old1[OF ns_ne] I(3) by (simp add: s'_def)
  have c4: "1 \<le> level s'" using I(4) lv by (simp add: s'_def L'_def)
  have c5: "level s' \<le> maxLevel" using I(5) lv by (simp add: s'_def L'_def)
  have nn: "new \<notin> set P" "new \<notin> set Q" using new_notin PQ by auto
  from I(6) have "distinct (P @ Q)" by (subst (asm) S(1))
  with nn have c6: "distinct (P @ [new] @ Q)" by auto
  have "0 \<notin> set P" "0 \<notin> set Q" using I(7) PQ by auto
  with ns_ne have c7: "0 \<notin> set (P @ [new] @ Q)" by (auto simp: new_def)
  have c8: "\<forall>a\<in>set (P @ [new] @ Q). a < length (nodes s') \<and> 1 \<le> height (nodes s') a
           \<and> height (nodes s') a \<le> level s'"
  proof (rule ballI)
    fix a assume "a \<in> set (P @ [new] @ Q)"
    then consider "a = new" | "a \<in> set l0" using PQ by auto
    then show "a < length (nodes s') \<and> 1 \<le> height (nodes s') a
           \<and> height (nodes s') a \<le> level s'"
    proof cases
      case 1
      with new1(2) lv show ?thesis by (simp add: s'_def ns1(2) len0 new_def L'_def)
    next
      case 2
      from I(8,9,10)[OF 2] old1[OF l0_old[OF 2]] show ?thesis
        by (simp add: s'_def ns1(2) len0 L'_def)
    qed
  qed
  have c9: "\<forall>a<length (nodes s'). height (nodes s') a \<le> maxLevel"
  proof (intro allI impI)
    fix a assume "a < length (nodes s')"
    then have "a < length ns \<or> a = new" by (auto simp: s'_def ns1(2) len0 new_def)
    then show "height (nodes s') a \<le> maxLevel"
      using I(11) old1 new1(2) lv by (auto simp: s'_def)
  qed
  have c10: "sorted_wrt (<) (map (key_of (nodes s')) (P @ [new] @ Q))"
  proof -
    have mP: "map (key_of ns1) P = map (key_of ns) P"
      by (rule map_cong) (use PQ l0_old old1 in auto)
    have mQ: "map (key_of ns1) Q = map (key_of ns) Q"
      by (rule map_cong) (use PQ l0_old old1 in auto)
    from I(12) have srt: "sorted_wrt (<) (map (key_of ns) (P @ Q))" by (subst (asm) S(1))
    have Qgt: "k < key_of ns a" if "a \<in> set Q" for a
      using S(3) nk that by (meson linorder_neqE)
    from srt S(2) Qgt show ?thesis
      by (simp add: s'_def mP mQ new1 sorted_wrt_append)
  qed
  have c11: "\<forall>i<maxLevel. level_seq s' i (filter (\<lambda>a. i < height (nodes s') a) (P @ [new] @ Q))"
    using chain c1 by (simp add: level_seq_def s'_def)
  have "sl_inv s' (P @ [new] @ Q)"
    unfolding sl_inv_def
    by (intro conjI) (fact c1 c2 c3 c4 c5 c6 c7 c8 c9 c10 c11)+
  with up new1 ns1(2) len0 show ?thesis
    by (auto simp: s'_def new_def)
qed

lemma unique_key:
  fixes f :: "'a \<Rightarrow> 'b::linorder"
  assumes "sorted_wrt (<) (map f l)" and "a \<in> set l"
  shows "filter (\<lambda>b. f b = f a) l = [a]"
  using assms
proof (induction l)
  case Nil
  then show ?case by simp
next
  case (Cons x xs)
  from Cons.prems(1) have srt: "sorted_wrt (<) (map f xs)" and gt: "\<forall>y\<in>set xs. f x < f y"
    by simp_all
  show ?case
  proof (cases "a = x")
    case True
    have "filter (\<lambda>b. f b = f x) xs = []"
    proof (rule filter_False, rule ballI)
      fix y assume "y \<in> set xs"
      with gt have "f x < f y" by blast
      then show "\<not> f y = f x" by simp
    qed
    with True show ?thesis by simp
  next
    case False
    with Cons.prems(2) have a: "a \<in> set xs" by simp
    with gt have "f x < f a" by blast
    then have "f x \<noteq> f a" by simp
    with Cons.IH[OF srt a] show ?thesis by simp
  qed
qed

lemma sl_inv_New: "sl_inv (NewSkipList seed) []"
  by (simp add: sl_inv_def NewSkipList_def level_seq_def height_def next_at_def maxLevel_def)


lemma Upsert_ok:
  fixes k :: key
  assumes inv: "sl_inv s l0"
  shows "\<exists>s' l0' a. Upsert k e s = Some s' \<and> sl_inv s' l0' \<and> a \<in> set l0'
     \<and> key_of (nodes s') a = k \<and> entry (nodes s' ! a) = e
     \<and> ((\<exists>b\<in>set l0. key_of (nodes s) b = k) \<longrightarrow>
          a < length (nodes s) \<and> key_of (nodes s) a = k
          \<and> s' = s\<lparr>nodes := set_entry a e (nodes s)\<rparr>)"
proof -
  define ns where "ns = nodes s"
  define P where "P = takeWhile (\<lambda>a. key_of ns a < k) l0"
  define Q where "Q = dropWhile (\<lambda>a. key_of ns a < k) l0"
  note S = key_split[OF inv, of k, folded ns_def, folded P_def Q_def]
  show ?thesis
  proof (cases "\<exists>a\<in>set Q. key_of ns a = k")
    case True
    then obtain a where a: "a \<in> set Q" "key_of ns a = k" by blast
    then obtain b Q' where Q: "Q = b # Q'" by (cases Q) auto
    have kb: "key_of ns b = k"
    proof (cases "a = b")
      case True
      with a show ?thesis by simp
    next
      case False
      with a Q have "a \<in> set Q'" by simp
      with S(6)[OF Q] a(2) have "key_of ns b < k" by auto
      moreover from S(3) Q have "\<not> key_of ns b < k" by simp
      ultimately show ?thesis by simp
    qed
    note O = Upsert_overwrite[OF inv Q[unfolded Q_def ns_def] kb[unfolded ns_def]]
    note E = set_entry_props[OF O(3), where e=e]
    have "Upsert k e s = Some (s\<lparr>nodes := set_entry b e (nodes s)\<rparr>)
      \<and> sl_inv (s\<lparr>nodes := set_entry b e (nodes s)\<rparr>) l0 \<and> b \<in> set l0
      \<and> key_of (nodes (s\<lparr>nodes := set_entry b e (nodes s)\<rparr>)) b = k
      \<and> entry (nodes (s\<lparr>nodes := set_entry b e (nodes s)\<rparr>) ! b) = e
      \<and> ((\<exists>c\<in>set l0. key_of (nodes s) c = k) \<longrightarrow>
          b < length (nodes s) \<and> key_of (nodes s) b = k
          \<and> s\<lparr>nodes := set_entry b e (nodes s)\<rparr> = s\<lparr>nodes := set_entry b e (nodes s)\<rparr>)"
      using O(1)[of e] O(2)[of e] O(3,4) E(2,5) kb by (simp add: ns_def)
    then show ?thesis by blast
  next
    case False
    then have nk: "\<forall>a\<in>set Q. key_of ns a \<noteq> k" by blast
    from Upsert_insert[OF inv nk[unfolded Q_def ns_def], of e, folded ns_def, folded P_def Q_def]
    obtain s' where s': "Upsert k e s = Some s'" "sl_inv s' (P @ [length ns] @ Q)"
      "key_of (nodes s') (length ns) = k" "entry (nodes s' ! length ns) = e"
      by blast
    have "\<not> (\<exists>b\<in>set l0. key_of ns b = k)"
    proof
      assume "\<exists>b\<in>set l0. key_of ns b = k"
      then obtain b where b: "b \<in> set l0" "key_of ns b = k" by blast
      from b(1) have "b \<in> set P \<or> b \<in> set Q" by (subst (asm) S(1)) auto
      with S(2) nk b(2) show False by auto
    qed
    with s' have "Upsert k e s = Some s' \<and> sl_inv s' (P @ [length ns] @ Q)
      \<and> length ns \<in> set (P @ [length ns] @ Q)
      \<and> key_of (nodes s') (length ns) = k \<and> entry (nodes s' ! length ns) = e
      \<and> ((\<exists>b\<in>set l0. key_of (nodes s) b = k) \<longrightarrow>
          length ns < length (nodes s) \<and> key_of (nodes s) (length ns) = k
          \<and> s' = s\<lparr>nodes := set_entry (length ns) e (nodes s)\<rparr>)"
      by (simp add: ns_def)
    then show ?thesis by blast
  qed
qed

lemma Search_after:
  fixes k :: key
  assumes "sl_inv s l0" and "a \<in> set l0" and "key_of (nodes s) a = k"
  shows "Search s k = Some (entry (nodes s ! a), True)"
proof -
  from unique_key[OF sl_invD(12)[OF assms(1)] assms(2)] assms(3)
  have "filter (\<lambda>b. key_of (nodes s) b = k) l0 = [a]" by simp
  then show ?thesis by (simp add: Search_inv[OF assms(1)])
qed





section \<open>SSTable: the regions of a written table\<close>

lemma cw_n_Write: "cw_n (cw_Write p w) = cw_n w + of_nat (length p)"
  by (simp add: cw_Write_def)

lemma length_encode_entry:
  "length (encode_entry e) = 9 + length (Key e) + length (Value e)"
  by (simp add: encode_entry_def enc_rec_def)

lemma cw_n_write_record:
  "cw_n (fst (write_record i e (w, idx, bf))) = cw_n w + of_nat (length (encode_entry e))"
  by (simp add: write_record_def Let_def cw_Write_def cw_WriteByte_def length_encode_entry)

lemma cw_n_write_records:
  "cw_n (fst (write_records i es st))
     = cw_n (fst st) + of_nat (length (concat (map encode_entry es)))"
proof (induction es arbitrary: i st)
  case Nil
  then show ?case by simp
next
  case (Cons e es)
  obtain w idx bf where st: "st = (w, idx, bf)" by (cases st)
  show ?case by (simp add: Cons.IH st cw_n_write_record)
qed

lemma idx_write_record:
  "fst (snd (write_record i e (w, idx, bf)))
     = (if i mod indexStride = 0 then idx @ [\<lparr>ikey = Key e, ioffset = cw_n w\<rparr>] else idx)"
  by (simp add: write_record_def Let_def)

lemma idx_write_records:
  "\<exists>rest. fst (snd (write_records i es (w, idx, bf))) = idx @ rest"
proof (induction es arbitrary: i w idx bf)
  case Nil
  then show ?case by simp
next
  case (Cons e es)
  obtain w' idx' bf' where st: "write_record i e (w, idx, bf) = (w', idx', bf')"
    by (cases "write_record i e (w, idx, bf)")
  from idx_write_record[of i e w idx bf] st obtain r1 where r1: "idx' = idx @ r1"
    by (cases "i mod indexStride = 0") auto
  from Cons.IH[of "Suc i" w' idx' bf'] obtain r2
    where "fst (snd (write_records (Suc i) es (w', idx', bf'))) = idx' @ r2" by blast
  then show ?case by (simp add: st r1)
qed

lemma idx_write_records_first:
  "\<exists>rest. fst (snd (write_records 0 (e # es) (w, [], bf)))
     = \<lparr>ikey = Key e, ioffset = cw_n w\<rparr> # rest"
proof -
  obtain w' idx' bf' where st: "write_record 0 e (w, [], bf) = (w', idx', bf')"
    by (cases "write_record 0 e (w, [], bf)")
  from idx_write_record[of 0 e w "[]" bf] st have "idx' = [\<lparr>ikey = Key e, ioffset = cw_n w\<rparr>]"
    by simp
  with idx_write_records[of "Suc 0" es w' idx' bf'] show ?thesis
    by (simp add: st)
qed

lemma bf_write_records:
  "snd (snd (write_records i es (w, idx, bf))) = foldl (\<lambda>b e. bloom_add (Key e) b) bf es"
proof (induction es arbitrary: i w idx bf)
  case Nil
  then show ?case by simp
next
  case (Cons e es)
  obtain w' idx' bf' where st: "write_record i e (w, idx, bf) = (w', idx', bf')"
    by (cases "write_record i e (w, idx, bf)")
  then have "bf' = bloom_add (Key e) bf"
    by (simp add: write_record_def Let_def)
  then show ?case by (simp add: st Cons.IH)
qed

lemma cw_index_entries:
  "cw_w (foldl (\<lambda>w it. write_index_entry it w) w idx)
     = cw_w w @ concat (map encode_index_entry idx)
   \<and> cw_n (foldl (\<lambda>w it. write_index_entry it w) w idx)
     = cw_n w + of_nat (length (concat (map encode_index_entry idx)))"
proof (induction idx arbitrary: w)
  case Nil
  then show ?case by simp
next
  case (Cons it idx)
  have a: "cw_w (write_index_entry it w) = cw_w w @ encode_index_entry it"
    by (simp add: write_index_entry_def Let_def encode_index_entry_def)
  have b: "cw_n (write_index_entry it w) = cw_n w + of_nat (length (encode_index_entry it))"
    by (simp add: write_index_entry_def Let_def encode_index_entry_def cw_n_Write)
  show ?case using Cons.IH[of "write_index_entry it w"] by (simp add: a b)
qed

text \<open>The bytes of a table, region by region.\<close>

lemma WriteTable_layout:
  "\<exists>idx. WriteTable entries
     = (le32 magic @ le32 (of_nat (length entries)) @ concat (map encode_entry entries))
       @ (le32 (of_nat (length idx)) @ concat (map encode_index_entry idx))
       @ marshal (foldl (\<lambda>b e. bloom_add (Key e) b) (newBloom (push_bit 20 1) 7) entries)
       @ le64 (of_nat (8 + length (concat (map encode_entry entries))))
       @ le64 (of_nat (8 + length (concat (map encode_entry entries))
                 + (4 + length (concat (map encode_index_entry idx)))))
     \<and> (entries \<noteq> [] \<longrightarrow> idx \<noteq> [] \<and> ikey (hd idx) = Key (hd entries))"
proof -
  define w1
    where "w1 = cw_Write (le32 (of_nat (length entries))) (cw_Write (le32 magic) newCountWriter)"
  define bf0 where "bf0 = newBloom (push_bit 20 1) 7"
  define st where "st = write_records 0 entries (w1, [], bf0)"
  define D where "D = concat (map encode_entry entries)"
  obtain w2 idx bf where st2: "st = (w2, idx, bf)" by (cases st)
  have w1w: "cw_w w1 = le32 magic @ le32 (of_nat (length entries))"
    by (simp add: w1_def cw_Write_def newCountWriter_def)
  have w1n: "cw_n w1 = 8"
    by (simp add: w1_def cw_Write_def newCountWriter_def)
  have "cw_w (fst st) = cw_w w1 @ D"
    unfolding st_def D_def using cw_w_write_records[of 0 entries "(w1, [], bf0)"] by simp
  then have w2w: "cw_w w2 = le32 magic @ le32 (of_nat (length entries)) @ D"
    by (simp add: st2 w1w)
  have "cw_n (fst st) = cw_n w1 + of_nat (length D)"
    unfolding st_def D_def using cw_n_write_records[of 0 entries "(w1, [], bf0)"] by simp
  then have w2n: "cw_n w2 = of_nat (8 + length D)"
    by (simp add: st2 w1n)
  have bf: "bf = foldl (\<lambda>b e. bloom_add (Key e) b) bf0 entries"
    using bf_write_records[of 0 entries w1 "[]" bf0] by (simp add: st_def[symmetric] st2)
  have first: "idx \<noteq> [] \<and> ikey (hd idx) = Key (hd entries)" if "entries \<noteq> []"
  proof -
    from that obtain e es where es: "entries = e # es" by (cases entries) auto
    from idx_write_records_first[of e es w1 bf0] obtain rest
      where "fst (snd st) = \<lparr>ikey = Key e, ioffset = cw_n w1\<rparr> # rest"
      by (auto simp: st_def es)
    then show ?thesis by (simp add: st2 es)
  qed
  define I where "I = concat (map encode_index_entry idx)"
  define w3 where "w3 = cw_Write (le32 (of_nat (length idx))) w2"
  define w4 where "w4 = foldl (\<lambda>w it. write_index_entry it w) w3 idx"
  have w3w: "cw_w w3 = cw_w w2 @ le32 (of_nat (length idx))"
    by (simp add: w3_def)
  have w3n: "cw_n w3 = of_nat (8 + length D + 4)"
    by (simp add: w3_def cw_n_Write w2n)
  have w4w: "cw_w w4 = cw_w w3 @ I"
    unfolding w4_def I_def using cw_index_entries[of w3 idx] by simp
  have "cw_n w4 = cw_n w3 + of_nat (length I)"
    unfolding w4_def I_def using cw_index_entries[of w3 idx] by simp
  then have w4n: "cw_n w4 = of_nat (8 + length D + (4 + length I))"
    by (simp add: w3n)
  have "WriteTable entries = (case st of (w2, idx, bf) \<Rightarrow>
     (let indexStartOffset = cw_n w2;
          w3 = cw_Write (le32 (of_nat (length idx))) w2;
          w4 = foldl (\<lambda>w it. write_index_entry it w) w3 idx;
          bloomStartOffset = cw_n w4;
          w5 = cw_Write (marshal bf) w4;
          w6 = cw_Write (le64 indexStartOffset) w5;
          w7 = cw_Write (le64 bloomStartOffset) w6
      in cw_w w7))"
    by (simp add: WriteTable_def st_def w1_def bf0_def Let_def)
  also have "\<dots> = cw_w w4 @ marshal bf @ le64 (cw_n w2) @ le64 (cw_n w4)"
    by (simp add: st2 Let_def w3_def[symmetric] w4_def[symmetric])
  finally have "WriteTable entries
     = (le32 magic @ le32 (of_nat (length entries)) @ D)
       @ (le32 (of_nat (length idx)) @ I)
       @ marshal bf
       @ le64 (of_nat (8 + length D))
       @ le64 (of_nat (8 + length D + (4 + length I)))"
    by (simp add: w4w w3w w2w w2n w4n)
  with first show ?thesis
    unfolding D_def I_def bf bf0_def by blast
qed

section \<open>SSTable: the footer and the index of a written table\<close>

lemma unat_of_nat64: "n < 2 ^ 64 \<Longrightarrow> unat (of_nat n :: 64 word) = n"
  by (simp add: unat_of_nat)

text \<open>
  A file made of a header and data part \<open>A\<close>, an index part \<open>I\<close>, a Bloom part \<open>B\<close> and a
  footer that points at the index and at the Bloom part.
\<close>

lemma table_footer:
  assumes f: "f = A @ I @ B @ le64 (of_nat (length A)) @ le64 (of_nat (length A + length I))"
      and A: "8 \<le> length A" and I: "0 < length I" and B: "0 < length B"
      and len: "length f < 2 ^ 64"
  shows "loadFooter f = Inr (of_nat (length A), of_nat (length A + length I))"
proof -
  have lf: "length f = length A + length I + length B + 16"
    by (simp add: f)
  have dr: "drop (length f - footerSize) f
      = le64 (of_nat (length A)) @ le64 (of_nat (length A + length I))"
    by (simp add: f footerSize_def)
  have fs: "(of_nat (length f) :: 64 word) - of_nat footerSize
      = of_nat (length A + length I + length B)"
    by (simp add: lf footerSize_def)
  have ua: "unat (of_nat (length A) :: 64 word) = length A"
    using len lf unat_of_nat64[of "length A"] by simp
  have ub: "unat (of_nat (length A + length I) :: 64 word) = length A + length I"
    using len lf unat_of_nat64[of "length A + length I"] by simp
  have uf: "unat (of_nat (length A + length I + length B) :: 64 word)
      = length A + length I + length B"
    using len lf unat_of_nat64[of "length A + length I + length B"] by simp
  have c1: "\<not> (of_nat (length A) :: 64 word) < of_nat headerSize"
    using A ua by (simp add: word_less_nat_alt headerSize_def del: of_nat_add)
  have c2: "\<not> (of_nat (length A) :: 64 word) \<ge> of_nat (length A + length I + length B)"
    using I ua uf by (simp add: word_le_nat_alt del: of_nat_add)
  have c3: "\<not> (of_nat (length A + length I) :: 64 word) \<le> of_nat (length A)"
    using I ua ub by (simp add: word_le_nat_alt del: of_nat_add)
  have c4: "\<not> (of_nat (length A + length I) :: 64 word)
      \<ge> of_nat (length A + length I + length B)"
    using B ub uf by (simp add: word_le_nat_alt del: of_nat_add)
  have sz: "\<not> length f < headerSize + footerSize"
    using A lf by (simp add: headerSize_def footerSize_def)
  have r2: "ReadU64 (le64 w) = Inr (w, [])" for w
    using ReadU64_le64[of w "[]"] by simp
  show ?thesis
    unfolding loadFooter_def Let_def dr fs
    using sz c1 c2 c3 c4 by (simp add: r2 del: of_nat_add)
qed

lemma load_entries_empty_key:
  "0 < n \<Longrightarrow> ikey it = [] \<Longrightarrow>
   load_entries n ioff (concat (map encode_index_entry (it # its)) @ r) = Inl ErrCorruptSST"
  by (cases n) (simp_all add: encode_index_entry_def)

lemma table_index_empty_key:
  assumes f: "f = A @ (le32 (of_nat (length idx)) @ concat (map encode_index_entry idx)) @ B
        @ le64 (of_nat (length A))
        @ le64 (of_nat (length A + (4 + length (concat (map encode_index_entry idx)))))"
      and A: "8 \<le> length A" and B: "0 < length B"
      and len: "length f < 2 ^ 64"
      and idx: "idx \<noteq> []" "ikey (hd idx) = []"
  shows "loadIndex f = Inl ErrCorruptSST"
proof -
  define I where "I = le32 (of_nat (length idx)) @ concat (map encode_index_entry idx)"
  have li: "length I = 4 + length (concat (map encode_index_entry idx))"
    by (simp add: I_def)
  have f': "f = A @ I @ B @ le64 (of_nat (length A)) @ le64 (of_nat (length A + length I))"
    unfolding li using f by (simp add: I_def)
  have ft: "loadFooter f = Inr (of_nat (length A), of_nat (length A + length I))"
    by (rule table_footer[OF f' A _ B len]) (simp add: li)
  have ua: "unat (of_nat (length A) :: 64 word) = length A"
    using len unat_of_nat64[of "length A"] by (simp add: f')
  from idx obtain it its where its: "idx = it # its" "ikey it = []"
    by (cases idx) auto
  define tail where "tail = B @ le64 (of_nat (length A)) @ le64 (of_nat (length A + length I))"
  have dr: "drop (unat (of_nat (length A) :: 64 word)) f
      = le32 (of_nat (length idx)) @ (concat (map encode_index_entry (it # its)) @ tail)"
    unfolding ua by (simp add: f' I_def its tail_def)
  have rd: "ReadU32 (drop (unat (of_nat (length A) :: 64 word)) f)
      = Inr (of_nat (length idx), concat (map encode_index_entry (it # its)) @ tail)"
    unfolding dr by (rule ReadU32_le32)
  show ?thesis
  proof (cases "(of_nat (length idx) :: 32 word) = 0
      \<or> (of_nat (length idx) :: 32 word) > maxIndexCount")
    case True
    then show ?thesis
      by (auto simp: loadIndex_def ft rd)
  next
    case False
    then have "0 < unat (of_nat (length idx) :: 32 word)"
      by (simp add: unat_gt_0)
    from load_entries_empty_key[OF this its(2), of "of_nat (length A)" its tail]
    show ?thesis
      using False by (simp add: loadIndex_def ft rd)
  qed
qed

section \<open>Bloom filter: the keys added to a filter are in it\<close>

lemma bloom_pos_cong: "bf_m bf' = bf_m bf \<Longrightarrow> bloom_pos bf' s i = bloom_pos bf s i"
  by (simp add: bloom_pos_def)

lemma bloom_set_k: "bf_k (bloom_set i bf) = bf_k bf"
  by (simp add: bloom_set_def Let_def)

lemma bit_mask_8: "n < 8 \<Longrightarrow> (b OR push_bit n 1) AND push_bit n (1 :: 8 word) \<noteq> 0"
proof -
  assume n: "n < 8"
  have "bit ((b OR push_bit n 1) AND push_bit n (1 :: 8 word)) n"
    using n by (simp add: bit_simps)
  then show ?thesis by (metis bit_0_eq bot_apply bot_bool_def)
qed

lemma bit_mask_mono: "(b :: 8 word) AND y \<noteq> 0 \<Longrightarrow> (b OR x) AND y \<noteq> 0"
proof -
  assume "b AND y \<noteq> 0"
  then obtain n where "bit (b AND y) n"
    by (auto simp: bit_eq_iff)
  then have "bit ((b OR x) AND y) n" by (simp add: bit_simps)
  then show ?thesis by (metis bit_0_eq bot_apply bot_bool_def)
qed

lemma bitn_less_8: "unat (ucast ((i :: 32 word) mod 8) :: 8 word) < 8"
proof -
  have "unat (i mod 8) < 8"
    by (simp add: unat_mod)
  moreover have "unat (ucast (i mod 8) :: 8 word) \<le> unat (i mod 8)"
    by (simp add: unsigned_ucast_eq take_bit_nat_less_eq_self)
  ultimately show ?thesis by simp
qed

lemma bloom_get_set_same:
  assumes "unat (p div 8) < length (bf_b bf)"
  shows "bloom_get (bloom_set p bf) p = Some True"
proof -
  define n where "n = unat (ucast (p mod 8) :: 8 word)"
  define b where "b = bf_b bf ! unat (p div 8)"
  have "n < 8" unfolding n_def by (rule bitn_less_8)
  then have "(b OR push_bit n 1) AND push_bit n 1 \<noteq> 0" by (rule bit_mask_8)
  with assms show ?thesis
    unfolding bloom_get_def bloom_set_def Let_def n_def[symmetric] b_def[symmetric]
    by simp
qed

lemma bloom_get_set_mono:
  assumes "bloom_get bf q = Some True"
  shows "bloom_get (bloom_set p bf) q = Some True"
proof -
  from assms have r: "unat (q div 8) < length (bf_b bf)"
    and b: "(bf_b bf ! unat (q div 8)) AND push_bit (unat (ucast (q mod 8) :: 8 word)) 1 \<noteq> 0"
    by (auto simp: bloom_get_def Let_def split: if_splits)
  show ?thesis
  proof (cases "unat (p div 8) = unat (q div 8)")
    case True
    with r b show ?thesis
      by (simp add: bloom_get_def bloom_set_def Let_def bit_mask_mono)
  next
    case False
    with r b show ?thesis
      by (simp add: bloom_get_def bloom_set_def Let_def)
  qed
qed

lemma bloom_get_total:
  "unat (q div 8) < length (bf_b bf) \<Longrightarrow> bloom_get bf q \<noteq> None"
  by (simp add: bloom_get_def Let_def)

text \<open>The taps that \<open>add\<close> sets, one by one.\<close>

lemma add_taps_range:
  "bf_m (foldl (\<lambda>bf' i. bloom_set (bloom_pos bf' s (of_nat i)) bf') bf ts) = bf_m bf
   \<and> bf_k (foldl (\<lambda>bf' i. bloom_set (bloom_pos bf' s (of_nat i)) bf') bf ts) = bf_k bf
   \<and> length (bf_b (foldl (\<lambda>bf' i. bloom_set (bloom_pos bf' s (of_nat i)) bf') bf ts))
       = length (bf_b bf)"
  by (induction ts arbitrary: bf) (simp_all add: bloom_set_range bloom_set_k)

lemma add_taps_mono:
  "bloom_get bf q = Some True \<Longrightarrow>
   bloom_get (foldl (\<lambda>bf' i. bloom_set (bloom_pos bf' s (of_nat i)) bf') bf ts) q = Some True"
  by (induction ts arbitrary: bf) (simp_all add: bloom_get_set_mono)

lemma add_taps_set:
  assumes "bf_m bf \<noteq> 0" and "unat (bf_m bf) \<le> 8 * length (bf_b bf)" and "i \<in> set ts"
  shows "bloom_get (foldl (\<lambda>bf' i. bloom_set (bloom_pos bf' s (of_nat i)) bf') bf ts)
           (bloom_pos bf s (of_nat i)) = Some True"
  using assms
proof (induction ts arbitrary: bf)
  case Nil
  then show ?case by simp
next
  case (Cons t ts)
  define bf1 where "bf1 = bloom_set (bloom_pos bf s (of_nat t)) bf"
  have m1: "bf_m bf1 = bf_m bf" and l1: "length (bf_b bf1) = length (bf_b bf)"
    by (simp_all add: bf1_def bloom_set_range)
  have pc: "bloom_pos bf1 s j = bloom_pos bf s j" for j
    by (rule bloom_pos_cong[OF m1])
  show ?case
  proof (cases "i = t")
    case True
    have "bloom_get bf1 (bloom_pos bf s (of_nat t)) = Some True"
      unfolding bf1_def
      by (rule bloom_get_set_same) (rule bloom_pos_in_range[OF Cons.prems(1,2)])
    from add_taps_mono[OF this, of s ts] show ?thesis
      by (simp add: bf1_def True)
  next
    case False
    with Cons.prems(3) have "i \<in> set ts" by simp
    from Cons.IH[of bf1, OF _ _ this] Cons.prems(1,2) show ?thesis
      by (simp add: m1 l1 pc bf1_def[symmetric])
  qed
qed

lemma bloom_add_range:
  "bf_m (bloom_add s bf) = bf_m bf \<and> bf_k (bloom_add s bf) = bf_k bf
   \<and> length (bf_b (bloom_add s bf)) = length (bf_b bf)"
  unfolding bloom_add_def by (rule add_taps_range)

lemma bloom_add_mono:
  "bloom_get bf q = Some True \<Longrightarrow> bloom_get (bloom_add s bf) q = Some True"
  unfolding bloom_add_def by (rule add_taps_mono)

lemma bloom_add_set:
  assumes "bf_m bf \<noteq> 0" and "unat (bf_m bf) \<le> 8 * length (bf_b bf)" and "i < unat (bf_k bf)"
  shows "bloom_get (bloom_add s bf) (bloom_pos bf s (of_nat i)) = Some True"
  unfolding bloom_add_def using assms(3) by (intro add_taps_set[OF assms(1,2)]) simp

lemma mayContain_taps_true:
  "\<forall>i\<in>set ts. bloom_get bf (bloom_pos bf s (of_nat i)) = Some True \<Longrightarrow>
   mayContain_taps bf s ts = Some True"
  by (induction ts) simp_all

lemma mayContain_taps_total:
  assumes "bf_m bf \<noteq> 0" and "unat (bf_m bf) \<le> 8 * length (bf_b bf)"
  shows "mayContain_taps bf s ts \<noteq> None"
proof (induction ts)
  case Nil
  then show ?case by simp
next
  case (Cons t ts)
  from bloom_get_total[OF bloom_pos_in_range[OF assms, of s "of_nat t"]]
  obtain b where "bloom_get bf (bloom_pos bf s (of_nat t)) = Some b" by auto
  with Cons.IH show ?case by (cases b) simp_all
qed

text \<open>The filter of a table: every key written to the table is in it.\<close>

lemma table_bloom_range:
  "bf_m (foldl (\<lambda>b e. bloom_add (Key e) b) bf es) = bf_m bf
   \<and> bf_k (foldl (\<lambda>b e. bloom_add (Key e) b) bf es) = bf_k bf
   \<and> length (bf_b (foldl (\<lambda>b e. bloom_add (Key e) b) bf es)) = length (bf_b bf)"
  by (induction es arbitrary: bf) (simp_all add: bloom_add_range)

lemma table_bloom_mono:
  "bloom_get bf q = Some True \<Longrightarrow>
   bloom_get (foldl (\<lambda>b e. bloom_add (Key e) b) bf es) q = Some True"
  by (induction es arbitrary: bf) (simp_all add: bloom_add_mono)

lemma table_bloom_contains:
  assumes "bf_m bf \<noteq> 0" and "unat (bf_m bf) \<le> 8 * length (bf_b bf)" and "e \<in> set es"
  shows "mayContain (foldl (\<lambda>b e. bloom_add (Key e) b) bf es) (Key e) = Some True"
  using assms
proof (induction es arbitrary: bf)
  case Nil
  then show ?case by simp
next
  case (Cons x es)
  define bf1 where "bf1 = bloom_add (Key x) bf"
  define bfn where "bfn = foldl (\<lambda>b e. bloom_add (Key e) b) bf1 es"
  have r1: "bf_m bf1 = bf_m bf" "bf_k bf1 = bf_k bf" "length (bf_b bf1) = length (bf_b bf)"
    by (simp_all add: bf1_def bloom_add_range)
  have rn: "bf_m bfn = bf_m bf" "bf_k bfn = bf_k bf"
    by (simp_all add: bfn_def table_bloom_range r1)
  show ?case
  proof (cases "e = x")
    case True
    have "bloom_get bfn (bloom_pos bfn (Key x) (of_nat i)) = Some True"
      if "i < unat (bf_k bf)" for i
    proof -
      have "bloom_get bf1 (bloom_pos bf (Key x) (of_nat i)) = Some True"
        unfolding bf1_def by (rule bloom_add_set[OF Cons.prems(1,2) that])
      then have "bloom_get bfn (bloom_pos bf (Key x) (of_nat i)) = Some True"
        unfolding bfn_def by (rule table_bloom_mono)
      then show ?thesis by (simp add: bloom_pos_cong[OF rn(1)])
    qed
    then have "mayContain bfn (Key x) = Some True"
      unfolding mayContain_def by (intro mayContain_taps_true) (simp add: rn)
    then show ?thesis by (simp add: True bfn_def bf1_def)
  next
    case False
    with Cons.prems(3) have "e \<in> set es" by simp
    from Cons.IH[of bf1, OF _ _ this] Cons.prems(1,2) show ?thesis
      by (simp add: r1 bf1_def[symmetric])
  qed
qed

section \<open>SSTable: reading a written table whose first key is empty\<close>

lemma unmarshal_marshal:
  assumes m: "bf_m bf \<noteq> 0" and k: "bf_k bf \<noteq> 0" and b: "bf_b bf \<noteq> []"
      and len: "12 + length (bf_b bf) < 2 ^ 32"
  shows "unmarshalBloom (marshal bf) = Some bf"
proof -
  define n where "n = length (bf_b bf)"
  define p where "p = marshal bf"
  have p: "p = le32 (bf_m bf) @ [bf_k bf, 0, 0, 0] @ le32 (of_nat n) @ bf_b bf"
    by (simp add: p_def marshal_def n_def)
  have lp: "length p = 12 + n" by (simp add: p n_def)
  have t4: "take 4 p = le32 (bf_m bf)" by (simp add: p)
  have p4: "p ! 4 = bf_k bf" by (simp add: p nth_append)
  have t8: "take 4 (drop 8 p) = le32 (of_nat n)" by (simp add: p)
  have d12: "drop 12 p = bf_b bf" by (simp add: p)
  have n0: "(of_nat n :: 32 word) \<noteq> 0"
    using of_nat32_eq_0[of n] b len by (simp add: n_def)
  have un: "unat (of_nat n :: 32 word) = n"
    using unat_of_nat32[of n] len by (simp add: n_def)
  have "(12 :: 32 word) + of_nat n = of_nat (12 + n)" by simp
  then have u12: "unat ((12 :: 32 word) + of_nat n) = 12 + n"
    using unat_of_nat32[of "12 + n"] len by (simp add: n_def del: of_nat_add)
  have tk: "take n (bf_b bf @ replicate n 0) = bf_b bf" by (simp add: n_def)
  have "unmarshalBloom p = Some \<lparr>bf_m = bf_m bf, bf_k = bf_k bf, bf_b = bf_b bf\<rparr>"
    unfolding unmarshalBloom_def Let_def t4 p4 t8 d12 rd32_le32 lp u12 un tk
    using m k n0 by simp
  then show ?thesis by (simp add: p_def)
qed

lemma table_Get_bloom:
  assumes f: "f = (le32 magic @ le32 c @ D) @ I @ marshal bf
        @ le64 (of_nat (8 + length D)) @ le64 (of_nat (8 + length D + length I))"
      and I: "0 < length I"
      and m: "bf_m bf \<noteq> 0" and k: "bf_k bf \<noteq> 0" and b: "bf_b bf \<noteq> []"
      and lb: "12 + length (bf_b bf) < 2 ^ 32"
      and len: "length f < 2 ^ 64"
  shows "Get_bloom f = Inr (bf, of_nat (8 + length D), of_nat (8 + length D + length I))"
proof -
  define A where "A = le32 magic @ le32 c @ D"
  define B where "B = marshal bf"
  have la: "length A = 8 + length D" by (simp add: A_def)
  have lB: "length B = 12 + length (bf_b bf)" by (simp add: B_def marshal_def)
  have f': "f = A @ I @ B @ le64 (of_nat (length A)) @ le64 (of_nat (length A + length I))"
    unfolding la using f by (simp add: A_def B_def)
  have lf: "length f = length A + length I + length B + 16" by (simp add: f')
  have ft: "loadFooter f = Inr (of_nat (length A), of_nat (length A + length I))"
    by (rule table_footer[OF f' _ I _ len]) (simp_all add: la lB)
  have r1: "ReadU32 f = Inr (magic, le32 c @ D @ I @ B
      @ le64 (of_nat (length A)) @ le64 (of_nat (length A + length I)))"
    unfolding f' A_def by simp
  have r2: "ReadU32 (le32 c @ D @ I @ B
      @ le64 (of_nat (length A)) @ le64 (of_nat (length A + length I)))
      = Inr (c, D @ I @ B @ le64 (of_nat (length A)) @ le64 (of_nat (length A + length I)))"
    by simp
  have fs: "(of_nat (length f) :: 64 word) - of_nat footerSize
      - of_nat (length A + length I) = of_nat (length B)"
    by (simp add: lf footerSize_def)
  have ub: "unat (of_nat (length A + length I) :: 64 word) = length A + length I"
    using len lf unat_of_nat64[of "length A + length I"] by simp
  have uB: "unat (of_nat (length B) :: 64 word) = length B"
    using len lf unat_of_nat64[of "length B"] by simp
  have bb: "take (length B) (drop (length A + length I) f) = B"
    by (simp add: f')
  have um: "unmarshalBloom B = Some bf"
    unfolding B_def by (rule unmarshal_marshal[OF m k b lb])
  have "Get_bloom f = Inr (bf, of_nat (length A), of_nat (length A + length I))"
    unfolding Get_bloom_def r1 sum.case prod.case r2 ft Let_def fs ub uB bb um option.case
    using m k by simp
  then show ?thesis by (simp only: la)
qed

lemma newBloom_table:
  "bf_m (newBloom (push_bit 20 1) 7) = 2 ^ 20 \<and> bf_k (newBloom (push_bit 20 1) 7) = 7
   \<and> length (bf_b (newBloom (push_bit 20 1) 7)) = 131072"
  by (simp add: newBloom_def)

text \<open>
  A table that \<open>WriteTable\<close> wrote from entries that begin with the empty key: its index
  begins with a key of length 0, which \<open>loadIndex\<close> rejects.
\<close>

lemma empty_first_key_rejected:
  assumes ne: "entries \<noteq> []" and ek: "Key (hd entries) = []"
      and len: "length (WriteTable entries) < 2 ^ 64"
  shows "loadIndex (WriteTable entries) = Inl ErrCorruptSST"
    and "e \<in> set entries \<Longrightarrow> sst_Get (Some (WriteTable entries)) (Key e) = Inl ErrCorruptSST"
    and "sst_Get (Some (WriteTable entries)) k = Inl ErrCorruptSST
         \<or> sst_Get (Some (WriteTable entries)) k = Inr ([], NotFound)"
proof -
  define bf where "bf = foldl (\<lambda>b e. bloom_add (Key e) b) (newBloom (push_bit 20 1) 7) entries"
  define D where "D = concat (map encode_entry entries)"
  define f where "f = WriteTable entries"
  from WriteTable_layout[of entries] ne ek obtain idx
    where w: "f = (le32 magic @ le32 (of_nat (length entries)) @ D)
       @ (le32 (of_nat (length idx)) @ concat (map encode_index_entry idx))
       @ marshal bf
       @ le64 (of_nat (8 + length D))
       @ le64 (of_nat (8 + length D + (4 + length (concat (map encode_index_entry idx)))))"
      and idx: "idx \<noteq> []" "ikey (hd idx) = []"
    unfolding bf_def D_def f_def by auto
  have r: "bf_m bf = 2 ^ 20" "bf_k bf = 7" "length (bf_b bf) = 131072"
    unfolding bf_def by (simp_all only: table_bloom_range newBloom_table)
  have m: "bf_m bf \<noteq> 0" and kk: "bf_k bf \<noteq> 0" and b: "bf_b bf \<noteq> []"
    and lb: "12 + length (bf_b bf) < 2 ^ 32" and rg: "unat (bf_m bf) \<le> 8 * length (bf_b bf)"
    using r by auto
  have len': "length f < 2 ^ 64" using len by (simp add: f_def)
  have lB: "0 < length (marshal bf)" by (simp add: marshal_def)
  have w1: "f = (le32 magic @ le32 (of_nat (length entries)) @ D)
       @ (le32 (of_nat (length idx)) @ concat (map encode_index_entry idx))
       @ marshal bf
       @ le64 (of_nat (length (le32 magic @ le32 (of_nat (length entries)) @ D)))
       @ le64 (of_nat (length (le32 magic @ le32 (of_nat (length entries)) @ D)
                 + (4 + length (concat (map encode_index_entry idx)))))"
    using w by simp
  have li: "loadIndex f = Inl ErrCorruptSST"
    by (rule table_index_empty_key[OF w1 _ lB len' idx]) simp
  then show "loadIndex (WriteTable entries) = Inl ErrCorruptSST" by (simp add: f_def)
  have w2: "f = (le32 magic @ le32 (of_nat (length entries)) @ D)
       @ (le32 (of_nat (length idx)) @ concat (map encode_index_entry idx))
       @ marshal bf
       @ le64 (of_nat (8 + length D))
       @ le64 (of_nat (8 + length D
             + length (le32 (of_nat (length idx)) @ concat (map encode_index_entry idx))))"
    using w by simp
  have gb: "Get_bloom f = Inr (bf, of_nat (8 + length D), of_nat (8 + length D
             + length (le32 (of_nat (length idx)) @ concat (map encode_index_entry idx))))"
    by (rule table_Get_bloom[OF w2 _ m kk b lb len']) simp
  have hit: "sst_Get (Some f) t = Inl ErrCorruptSST" if "mayContain bf t = Some True" for t
    using that by (simp add: sst_Get_def Get_section_def gb li)
  have miss: "sst_Get (Some f) t = Inr ([], NotFound)" if "mayContain bf t = Some False" for t
    using that by (simp add: sst_Get_def Get_section_def gb)
  {
    assume "e \<in> set entries"
    from table_bloom_contains[OF _ _ this, of "newBloom (push_bit 20 1) 7"]
    have "mayContain bf (Key e) = Some True"
      unfolding bf_def using newBloom_range by blast
    from hit[OF this] show "sst_Get (Some (WriteTable entries)) (Key e) = Inl ErrCorruptSST"
      by (simp add: f_def)
  }
  from mayContain_taps_total[OF m rg, of k "[0..<unat (bf_k bf)]"]
  obtain a where "mayContain bf k = Some a"
    by (auto simp: mayContain_def)
  with hit[of k] miss[of k]
  show "sst_Get (Some (WriteTable entries)) k = Inl ErrCorruptSST
         \<or> sst_Get (Some (WriteTable entries)) k = Inr ([], NotFound)"
    by (cases a) (simp_all add: f_def)
qed

lemma length_WriteTable_single:
  "length (WriteTable [e]) = 131133 + 2 * length (Key e) + length (Value e)"
proof -
  have "WriteTable [e]
     = le32 magic @ le32 1 @ encode_entry e
       @ le32 1 @ encode_index_entry \<lparr>ikey = Key e, ioffset = 8\<rparr>
       @ marshal (bloom_add (Key e) (newBloom (push_bit 20 1) 7))
       @ le64 (8 + of_nat (length (encode_entry e)))
       @ le64 (8 + of_nat (length (encode_entry e)) + 4
            + of_nat (length (encode_index_entry \<lparr>ikey = Key e, ioffset = 8\<rparr>)))"
    by (simp add: WriteTable_def write_record_def Let_def cw_Write_def cw_WriteByte_def
        newCountWriter_def write_index_entry_def encode_entry_def enc_rec_def
        encode_index_entry_def indexStride_def add.assoc)
  then show ?thesis
    by (simp add: encode_entry_def enc_rec_def encode_index_entry_def marshal_def
        bloom_add_range newBloom_def)
qed

section \<open>The empty key\<close>

lemma mem_upsert:
  fixes k :: key
  assumes "sl_ok (sl m)"
  shows "\<exists>s'. Upsert k e (sl m) = Some s' \<and> sl_ok s' \<and> Search s' k = Some (e, True)"
proof -
  from assms obtain l0 where "sl_inv (sl m) l0" unfolding sl_ok_def by blast
  from Upsert_ok[OF this, of k e] obtain s' l0' a where s': "Upsert k e (sl m) = Some s'"
    "sl_inv s' l0'" "a \<in> set l0'" "key_of (nodes s') a = k" "entry (nodes s' ! a) = e"
    by blast
  from Search_after[OF s'(2,3,4)] s'(5) have "Search s' k = Some (e, True)" by simp
  with s'(1,2) show ?thesis unfolding sl_ok_def by blast
qed

lemma get_sstables_corrupt:
  "sst_Get (fs p) k = Inl ErrCorruptSST \<Longrightarrow> get_sstables fs (p # ps) k = Some ([], False)"
  by simp

lemma db_empty_key_entries:
  "RangeAll (mem db_empty_key) [] [] = Some [\<lparr>Key = [], Value = [0x76], Tombstone = False\<rparr>]"
  by code_simp

lemma db_empty_key_path:
  "Join (sstDir db_empty_key) (sst_name (nextID db_empty_key)) = ''data/sst/000001.sst''"
  by code_simp

lemma db_empty_key_Get: "DB_Get Map.empty db_empty_key [] = Some ([0x76], True)"
  by code_simp

lemma db_empty_key_Flush:
  "Flush no_faults (\<lambda>i. 1) Map.empty db_empty_key
     = Some (None, db_empty_key_flushed, fs_empty_key)"
proof -
  have fs: "[''data/sst/000001.sst'' \<mapsto> table_empty_key] = fs_empty_key"
    by (auto simp: fs_empty_key_def)
  show ?thesis
    by (simp add: Flush_def Let_def db_empty_key_entries db_empty_key_path no_faults_def
        wal_Close_def buf_Flush_def db_empty_key_flushed_def table_empty_key_def[symmetric]
        fs wal_Open_def)
      (simp add: db_empty_key_def)
qed

text \<open>
  Claim C10, as stated, on an engine whose memtable holds the empty key with the value
  \<open>v\<close>: \<open>Get("")\<close> returns the value and \<open>Flush\<close> succeeds, writing the table
  \<open>000001.sst\<close>; but \<open>loadIndex\<close> rejects the table, whose first index entry has
  \<open>keyLen = 0\<close>, so \<open>sstable.Get\<close> of the empty key returns \<open>ErrCorruptSST\<close> and the engine's
  \<open>Get("")\<close> now answers not-present. An operation of the read path does validate the
  empty key.
\<close>

theorem empty_key_rejected_counterexample:
  "DB_Get Map.empty db_empty_key [] = Some ([0x76], True)
   \<and> Flush no_faults (\<lambda>i. 1) Map.empty db_empty_key
       = Some (None, db_empty_key_flushed, fs_empty_key)
   \<and> loadIndex table_empty_key = Inl ErrCorruptSST
   \<and> sst_Get (fs_empty_key ''data/sst/000001.sst'') [] = Inl ErrCorruptSST
   \<and> DB_Get fs_empty_key db_empty_key_flushed [] = Some ([], False)"
proof -
  have ne: "[\<lparr>Key = [], Value = [0x76 :: byte], Tombstone = False\<rparr>] \<noteq> []"
    and ek: "Key (hd [\<lparr>Key = [], Value = [0x76 :: byte], Tombstone = False\<rparr>]) = []"
    by simp_all
  have len: "length (WriteTable [\<lparr>Key = [], Value = [0x76], Tombstone = False\<rparr>]) < 2 ^ 64"
    by (simp add: length_WriteTable_single)
  have li: "loadIndex table_empty_key = Inl ErrCorruptSST"
    unfolding table_empty_key_def by (rule empty_first_key_rejected(1)[OF ne ek len])
  have "sst_Get (Some table_empty_key)
      (Key \<lparr>Key = [], Value = [0x76], Tombstone = False\<rparr>) = Inl ErrCorruptSST"
    unfolding table_empty_key_def by (rule empty_first_key_rejected(2)[OF ne ek len]) simp
  then have g: "sst_Get (fs_empty_key ''data/sst/000001.sst'') [] = Inl ErrCorruptSST"
    by (simp add: fs_empty_key_def)
  have miss: "mem_GetAll (mem db_empty_key_flushed) [] = Some (zeroEntry, False)"
    by code_simp
  have st: "sstables db_empty_key_flushed = [''data/sst/000001.sst'']"
    by (simp add: db_empty_key_flushed_def)
  have after: "DB_Get fs_empty_key db_empty_key_flushed [] = Some ([], False)"
    by (simp add: DB_Get_def miss st g)
  from db_empty_key_Get db_empty_key_Flush li g after show ?thesis by (intro conjI)
qed

text \<open>
  Claim C10, amended: the empty string is accepted as a key by the memtable, the WAL and
  the SSTable writer, but not by the SSTable reader. On every memtable whose skip list
  satisfies the invariant, \<open>Put("", v)\<close> returns and stores an entry that \<open>Search\<close> finds
  and that \<open>Get("")\<close> returns as present with the value \<open>v\<close>; \<open>Delete("")\<close> returns and
  stores a tombstone for the empty key, which \<open>Get("")\<close> reports as not present;
  \<open>AppendPut\<close> and \<open>AppendDelete\<close> append a record whose key length is 0; and
  \<open>WriteTable\<close> writes the record of an empty key with \<open>keyLen = 0\<close>. No step of these
  operations rejects the key. \<open>loadIndex\<close> does: for a table (shorter than \<open>2 ^ 64\<close>
  bytes) that \<open>WriteTable\<close> wrote from entries that begin with the empty key, \<open>loadIndex\<close>
  returns \<open>ErrCorruptSST\<close>; \<open>sstable.Get\<close> returns \<open>ErrCorruptSST\<close> for every key of the table,
  the empty key included, and \<open>ErrCorruptSST\<close> or \<open>NotFound\<close> for any other key; and the
  engine's \<open>Get\<close>, on a memtable miss with this table first in the stack, answers
  not-present for every key of the table.
\<close>

theorem empty_key_accepted_until_index:
  assumes "sl_ok (sl m)"
  shows "(\<exists>m'. mem_Put [] v m = Some m' \<and> sl_ok (sl m')
            \<and> Search (sl m') [] = Some (\<lparr>Key = [], Value = v, Tombstone = False\<rparr>, True)
            \<and> mem_Get m' [] = Some (v, True))
       \<and> (\<exists>m'. mem_Delete [] m = Some m' \<and> sl_ok (sl m')
            \<and> Search (sl m') [] = Some (\<lparr>Key = [], Value = [], Tombstone = True\<rparr>, True)
            \<and> mem_Get m' [] = Some ([], False))
       \<and> wal_file (AppendPut [] v w)
            = wal_file w @ wal_buf w @ [0] @ le32 0 @ le32 (of_nat (length v)) @ v
       \<and> wal_file (AppendDelete [] w) = wal_file w @ wal_buf w @ [1] @ le32 0 @ le32 0
       \<and> (\<exists>tail. WriteTable (\<lparr>Key = [], Value = v, Tombstone = t\<rparr> # es)
            = le32 magic @ le32 (of_nat (Suc (length es)))
              @ (le32 0 @ le32 (of_nat (length v)) @ [if t then 1 else 0] @ v) @ tail)
       \<and> (entries \<noteq> [] \<and> Key (hd entries) = [] \<and> length (WriteTable entries) < 2 ^ 64 \<longrightarrow>
            loadIndex (WriteTable entries) = Inl ErrCorruptSST
            \<and> (\<forall>e\<in>set entries. sst_Get (Some (WriteTable entries)) (Key e) = Inl ErrCorruptSST)
            \<and> (\<forall>k. sst_Get (Some (WriteTable entries)) k = Inl ErrCorruptSST
                  \<or> sst_Get (Some (WriteTable entries)) k = Inr ([], NotFound))
            \<and> (\<forall>e\<in>set entries. \<forall>d fs p ps e'.
                  mem_GetAll (mem d) (Key e) = Some (e', False) \<and> sstables d = p # ps
                  \<and> fs p = Some (WriteTable entries) \<longrightarrow>
                  DB_Get fs d (Key e) = Some ([], False)))"
proof -
  from mem_upsert[OF assms, of "[]" "\<lparr>Key = [], Value = v, Tombstone = False\<rparr>"]
  obtain s1 where s1: "Upsert [] \<lparr>Key = [], Value = v, Tombstone = False\<rparr> (sl m) = Some s1"
    "sl_ok s1" "Search s1 [] = Some (\<lparr>Key = [], Value = v, Tombstone = False\<rparr>, True)"
    by blast
  then have 1: "\<exists>m'. mem_Put [] v m = Some m' \<and> sl_ok (sl m')
            \<and> Search (sl m') [] = Some (\<lparr>Key = [], Value = v, Tombstone = False\<rparr>, True)
            \<and> mem_Get m' [] = Some (v, True)"
    by (simp add: mem_Put_def mem_Get_def cloneBytes_def)
  from mem_upsert[OF assms, of "[]" "\<lparr>Key = [], Value = [], Tombstone = True\<rparr>"]
  obtain s2 where s2: "Upsert [] \<lparr>Key = [], Value = [], Tombstone = True\<rparr> (sl m) = Some s2"
    "sl_ok s2" "Search s2 [] = Some (\<lparr>Key = [], Value = [], Tombstone = True\<rparr>, True)"
    by blast
  then have 2: "\<exists>m'. mem_Delete [] m = Some m' \<and> sl_ok (sl m')
            \<and> Search (sl m') [] = Some (\<lparr>Key = [], Value = [], Tombstone = True\<rparr>, True)
            \<and> mem_Get m' [] = Some ([], False)"
    by (simp add: mem_Delete_def mem_Get_def)
  have 3: "wal_file (AppendPut [] v w)
            = wal_file w @ wal_buf w @ [0] @ le32 0 @ le32 (of_nat (length v)) @ v"
    by (simp add: AppendPut_def buf_Write_def buf_Flush_def Let_def opPut_def)
  have 4: "wal_file (AppendDelete [] w) = wal_file w @ wal_buf w @ [1] @ le32 0 @ le32 0"
    by (simp add: AppendDelete_def buf_Write_def buf_Flush_def Let_def opDelete_def)
  have 5: "\<exists>tail. WriteTable (\<lparr>Key = [], Value = v, Tombstone = t\<rparr> # es)
            = le32 magic @ le32 (of_nat (Suc (length es)))
              @ (le32 0 @ le32 (of_nat (length v)) @ [if t then 1 else 0] @ v) @ tail"
  proof -
    from WriteTable_data[of "\<lparr>Key = [], Value = v, Tombstone = t\<rparr> # es"]
    obtain tail where "WriteTable (\<lparr>Key = [], Value = v, Tombstone = t\<rparr> # es)
        = le32 magic @ le32 (of_nat (length (\<lparr>Key = [], Value = v, Tombstone = t\<rparr> # es)))
          @ concat (map encode_entry (\<lparr>Key = [], Value = v, Tombstone = t\<rparr> # es)) @ tail"
      by blast
    then have "WriteTable (\<lparr>Key = [], Value = v, Tombstone = t\<rparr> # es)
        = le32 magic @ le32 (of_nat (Suc (length es)))
          @ (le32 0 @ le32 (of_nat (length v)) @ [if t then 1 else 0] @ v)
          @ (concat (map encode_entry es) @ tail)"
      by (simp add: encode_entry_def enc_rec_def)
    then show ?thesis by blast
  qed
  have 6: "loadIndex (WriteTable entries) = Inl ErrCorruptSST
            \<and> (\<forall>e\<in>set entries. sst_Get (Some (WriteTable entries)) (Key e) = Inl ErrCorruptSST)
            \<and> (\<forall>k. sst_Get (Some (WriteTable entries)) k = Inl ErrCorruptSST
                  \<or> sst_Get (Some (WriteTable entries)) k = Inr ([], NotFound))
            \<and> (\<forall>e\<in>set entries. \<forall>d fs p ps e'.
                  mem_GetAll (mem d) (Key e) = Some (e', False) \<and> sstables d = p # ps
                  \<and> fs p = Some (WriteTable entries) \<longrightarrow>
                  DB_Get fs d (Key e) = Some ([], False))"
    if h: "entries \<noteq> []" "Key (hd entries) = []" "length (WriteTable entries) < 2 ^ 64"
  proof -
    note r = empty_first_key_rejected[OF h]
    have a: "loadIndex (WriteTable entries) = Inl ErrCorruptSST" by (rule r(1))
    have b: "\<forall>e\<in>set entries. sst_Get (Some (WriteTable entries)) (Key e) = Inl ErrCorruptSST"
      using r(2) by blast
    have c: "\<forall>k. sst_Get (Some (WriteTable entries)) k = Inl ErrCorruptSST
                  \<or> sst_Get (Some (WriteTable entries)) k = Inr ([], NotFound)"
      using r(3) by blast
    have d: "DB_Get fs d (Key e) = Some ([], False)"
      if "e \<in> set entries" "mem_GetAll (mem d) (Key e) = Some (e', False)"
        "sstables d = p # ps" "fs p = Some (WriteTable entries)" for e d fs p ps e'
    proof -
      from r(2)[OF that(1)] that(4) have "sst_Get (fs p) (Key e) = Inl ErrCorruptSST"
        by simp
      from get_sstables_corrupt[of fs p "Key e" ps, OF this] that(2,3) show ?thesis
        by (simp add: DB_Get_def)
    qed
    from a b c d show ?thesis by blast
  qed
  from 1 2 3 4 5 6 show ?thesis by (intro conjI impI) blast+
qed

theorem empty_key_accepted_until_index_witness:
  "(\<exists>m'. mem_Put [] [0x76] (NewMemTable (\<lambda>i. 1)) = Some m'
      \<and> mem_Get m' [] = Some ([0x76], True))
   \<and> (\<exists>m'. mem_Delete [] (NewMemTable (\<lambda>i. 1)) = Some m'
      \<and> mem_Get m' [] = Some ([], False))
   \<and> wal_file (AppendPut [] [0x76] (wal_Open [])) = [0, 0, 0, 0, 0, 1, 0, 0, 0, 0x76]
   \<and> loadIndex (WriteTable [\<lparr>Key = [], Value = [], Tombstone = True\<rparr>,
                             \<lparr>Key = [0x62], Value = [0x31], Tombstone = False\<rparr>])
       = Inl ErrCorruptSST
   \<and> sst_Get (Some (WriteTable [\<lparr>Key = [], Value = [], Tombstone = True\<rparr>,
                                 \<lparr>Key = [0x62], Value = [0x31], Tombstone = False\<rparr>])) [0x62]
       = Inl ErrCorruptSST
   \<and> DB_Get fs_empty_key db_empty_key_flushed [] = Some ([], False)"
proof -
  have ok: "sl_ok (sl (NewMemTable (\<lambda>i. 1)))"
    unfolding sl_ok_def NewMemTable_def using sl_inv_New[of "\<lambda>i. 1"] by auto
  define e0 where "e0 = \<lparr>Key = [], Value = [], Tombstone = True\<rparr>"
  define e1 where "e1 = \<lparr>Key = [0x62 :: byte], Value = [0x31 :: byte], Tombstone = False\<rparr>"
  define ev where "ev = \<lparr>Key = [], Value = [0x76 :: byte], Tombstone = False\<rparr>"
  note t = empty_key_accepted_until_index[OF ok, of "[0x76]" "wal_Open []" True "[]" "[e0, e1]"]
  note u = empty_key_accepted_until_index[OF ok, of "[0x76]" "wal_Open []" True "[]" "[ev]"]
  from t have 1: "\<exists>m'. mem_Put [] [0x76] (NewMemTable (\<lambda>i. 1)) = Some m'
      \<and> mem_Get m' [] = Some ([0x76], True)"
    by blast
  from t have 2: "\<exists>m'. mem_Delete [] (NewMemTable (\<lambda>i. 1)) = Some m'
      \<and> mem_Get m' [] = Some ([], False)"
    by blast
  from t have "wal_file (AppendPut [] [0x76] (wal_Open []))
      = wal_file (wal_Open []) @ wal_buf (wal_Open []) @ [0] @ le32 0
        @ le32 (of_nat (length [0x76 :: byte])) @ [0x76]"
    by blast
  then have 3: "wal_file (AppendPut [] [0x76] (wal_Open [])) = [0, 0, 0, 0, 0, 1, 0, 0, 0, 0x76]"
    by (simp add: wal_Open_def le32_def)
  have len: "length (WriteTable [e0, e1]) < 2 ^ 64"
    by (simp add: e0_def e1_def WriteTable_def write_record_def Let_def cw_Write_def
        cw_WriteByte_def newCountWriter_def write_index_entry_def indexStride_def marshal_def
        bloom_add_range newBloom_def)
  have h: "[e0, e1] \<noteq> [] \<and> Key (hd [e0, e1]) = [] \<and> length (WriteTable [e0, e1]) < 2 ^ 64"
    using len by (simp add: e0_def)
  from t h have 4: "loadIndex (WriteTable [e0, e1]) = Inl ErrCorruptSST"
    by blast
  from t h have "\<forall>e\<in>set [e0, e1].
      sst_Get (Some (WriteTable [e0, e1])) (Key e) = Inl ErrCorruptSST"
    by blast
  then have 5: "sst_Get (Some (WriteTable [e0, e1])) [0x62] = Inl ErrCorruptSST"
    by (simp add: e1_def)
  have hv: "[ev] \<noteq> [] \<and> Key (hd [ev]) = [] \<and> length (WriteTable [ev]) < 2 ^ 64"
    by (simp add: ev_def length_WriteTable_single)
  have miss: "mem_GetAll (mem db_empty_key_flushed) (Key ev) = Some (zeroEntry, False)"
    unfolding ev_def by code_simp
  have st: "sstables db_empty_key_flushed = ''data/sst/000001.sst'' # []"
    by (simp add: db_empty_key_flushed_def)
  have fp: "fs_empty_key ''data/sst/000001.sst'' = Some (WriteTable [ev])"
    by (simp add: fs_empty_key_def table_empty_key_def ev_def)
  from u hv have "\<forall>e\<in>set [ev]. \<forall>d fs p ps e'.
        mem_GetAll (mem d) (Key e) = Some (e', False) \<and> sstables d = p # ps
        \<and> fs p = Some (WriteTable [ev]) \<longrightarrow> DB_Get fs d (Key e) = Some ([], False)"
    by blast
  with miss st fp have "DB_Get fs_empty_key db_empty_key_flushed (Key ev) = Some ([], False)"
    by simp
  then have 6: "DB_Get fs_empty_key db_empty_key_flushed [] = Some ([], False)"
    by (simp add: ev_def)
  from 1 2 3 4 5 6 show ?thesis
    unfolding e0_def e1_def by (intro conjI)
qed


end
